theory Spec2Isabelle
  imports Main "HOL-Library.AList"
begin

section \<open>Values, change types and events\<close>

text \<open>
  \<^verbatim>\<open>PrimitiveValue = boolean | number | string\<close> (node.ts). Numbers are modelled as
  integers: the comparisons and truthiness tests of the source are exact on them, and
  NaN (never produced by a JSON payload) is left out.
\<close>

datatype PrimitiveValue = PBool bool | PNumber int | PString string

text \<open>
  JavaScript truthiness of a \<^verbatim>\<open>PrimitiveValue | null\<close>, as tested by
  \<^verbatim>\<open>if (newValue)\<close> and \<^verbatim>\<open>if (this.value)\<close>: \<^verbatim>\<open>null\<close>, \<^verbatim>\<open>false\<close>,
  \<^verbatim>\<open>0\<close> and the empty string are falsy.
\<close>

fun truthy :: "PrimitiveValue option \<Rightarrow> bool" where
  "truthy None = False"
| "truthy (Some (PBool b)) = b"
| "truthy (Some (PNumber n)) = (n \<noteq> 0)"
| "truthy (Some (PString s)) = (s \<noteq> [])"

text \<open>
  Modelled from the spec: the enum \<^verbatim>\<open>ChangeType\<close> of \<^verbatim>\<open>./change-type\<close>, which
  node.ts imports and which is not among the sources; the spec names its members
  Added, Changed and Removed.
\<close>

datatype ChangeType = Added | Changed | Removed

datatype TreeDataEventType = ChildAdded | ChildRemoved | ChildChanged | ValueChanged

section \<open>The object store\<close>

text \<open>
  Nodes are mutable objects that refer to each other (a child to its parent, a parent
  to its children), so they live in an explicit store: an address is a natural number,
  \<^verbatim>\<open>new Node(..)\<close> takes the next unused address. A JavaScript \<^verbatim>\<open>Map\<close> is an
  association list in insertion order: \<^verbatim>\<open>set\<close> is \<^const>\<open>AList.update\<close> (an existing
  key keeps its position, a new key goes last), \<^verbatim>\<open>delete\<close> is \<^const>\<open>AList.delete\<close>,
  \<^verbatim>\<open>get\<close> is \<^const>\<open>map_of\<close>.
\<close>

type_synonym addr = nat

record Node =
  parent :: "addr option"
  key :: string
  val :: "PrimitiveValue option"
  children :: "(string \<times> addr) list"
  changedNodes :: "(string \<times> ChangeType) list"

text \<open>\<^verbatim>\<open>NodeEvent\<close>: the event type and the node it carries (a reference).\<close>

datatype NodeEvent = NodeEvent (etype: TreeDataEventType) (enode: addr)

text \<open>
  What a node's \<^verbatim>\<open>publisher\<close> (an rxjs Subject) is told: \<^verbatim>\<open>next(event)\<close> or
  \<^verbatim>\<open>complete()\<close>. The store logs every such call with the address of the node whose
  publisher it was made on; what a subscriber of that node sees is the part of the log
  made on that node.
\<close>

datatype Notification = Next NodeEvent | Complete

record Store =
  heap :: "addr \<Rightarrow> Node"
  nextAddr :: addr
  emitted :: "(addr \<times> Notification) list"

text \<open>
  The \<^verbatim>\<open>Error\<close>s the source throws. A call either returns a value, or throws, and in
  both cases leaves the store as mutated so far; \<open>OutOfFuel\<close> stands for a recursion
  over the object graph that did not come to an end within its fuel.
\<close>

datatype Error =
    ChildDoesNotExist string string
  | ReadonlyDatabase

datatype ('a, 's) Result = Ok 'a 's | Threw Error 's | OutOfFuel

definition andThen :: "('a, 's) Result \<Rightarrow> ('a \<Rightarrow> 's \<Rightarrow> ('b, 's) Result) \<Rightarrow> ('b, 's) Result" where
  "andThen r f = (case r of Ok x s \<Rightarrow> f x s | Threw e s \<Rightarrow> Threw e s | OutOfFuel \<Rightarrow> OutOfFuel)"

text \<open>\<^verbatim>\<open>forEach\<close> over the entries of a Map or the elements of an array; a throw ends it.\<close>

fun forEach :: "('a \<Rightarrow> 's \<Rightarrow> (unit, 's) Result) \<Rightarrow> 'a list \<Rightarrow> 's \<Rightarrow> (unit, 's) Result" where
  "forEach f [] s = Ok () s"
| "forEach f (x # xs) s = andThen (f x s) (\<lambda>_. forEach f xs)"

definition modify :: "addr \<Rightarrow> (Node \<Rightarrow> Node) \<Rightarrow> 's Store_scheme \<Rightarrow> 's Store_scheme" where
  "modify a f s = s\<lparr>heap := (heap s)(a := f (heap s a))\<rparr>"

text \<open>\<^verbatim>\<open>new Node(parent, key)\<close>: no value, no children, an empty ledger.\<close>

definition newNode :: "addr option \<Rightarrow> string \<Rightarrow> 's Store_scheme \<Rightarrow> addr \<times> 's Store_scheme" where
  "newNode p k s =
     (nextAddr s,
      s\<lparr>heap := (heap s)(nextAddr s :=
           \<lparr>parent = p, key = k, val = None, children = [], changedNodes = []\<rparr>),
        nextAddr := Suc (nextAddr s)\<rparr>)"

definition publish :: "addr \<Rightarrow> Notification \<Rightarrow> 's Store_scheme \<Rightarrow> 's Store_scheme" where
  "publish a n s = s\<lparr>emitted := emitted s @ [(a, n)]\<rparr>"

section \<open>Node\<close>

definition getDirectChild :: "addr \<Rightarrow> string \<Rightarrow> 's Store_scheme \<Rightarrow> addr option" where
  "getDirectChild this k s = map_of (children (heap s this)) k"

fun getChild :: "addr \<Rightarrow> string list \<Rightarrow> 's Store_scheme \<Rightarrow> addr option" where
  "getChild this [] s = Some this"
| "getChild this (k # path) s =
     (if k = [] then Some this
      else case getDirectChild this k s of
             Some node \<Rightarrow> getChild node path s
           | None \<Rightarrow> None)"

text \<open>
  \<^verbatim>\<open>markChildAsChanged(key, type)\<close>: the ledger merge, and on the first entry of an
  empty ledger the call on the parent. The recursion climbs the parent references, one
  unit of fuel per call.
\<close>

fun markChildAsChanged_fuel ::
  "nat \<Rightarrow> addr \<Rightarrow> string \<Rightarrow> ChangeType \<Rightarrow> 's Store_scheme \<Rightarrow> (unit, 's Store_scheme) Result" where
  "markChildAsChanged_fuel 0 this k t s = OutOfFuel"
| "markChildAsChanged_fuel (Suc n) this k t s =
     (if map_of (children (heap s this)) k = None
      then Threw (ChildDoesNotExist k (key (heap s this))) s
      else case map_of (changedNodes (heap s this)) k of
        Some currentType \<Rightarrow>
          if currentType = Changed \<and> t = Changed then Ok () s
          else if currentType = Removed \<and> t = Added then
            Ok () (modify this (\<lambda>me. me\<lparr>changedNodes := AList.update k Changed (changedNodes me)\<rparr>) s)
          else if currentType = Added \<and> t = Removed then
            Ok () (modify this (\<lambda>me. me\<lparr>changedNodes := AList.delete k (changedNodes me)\<rparr>) s)
          else if currentType = Added \<and> t = Changed then
            Ok () (modify this (\<lambda>me. me\<lparr>changedNodes := AList.update k Added (changedNodes me)\<rparr>) s)
          else
            Ok () (modify this (\<lambda>me. me\<lparr>changedNodes := AList.update k t (changedNodes me)\<rparr>) s)
      | None \<Rightarrow>
          (let s' = modify this (\<lambda>me. me\<lparr>changedNodes := AList.update k t (changedNodes me)\<rparr>) s
           in case parent (heap s' this) of
                Some p \<Rightarrow>
                  if length (changedNodes (heap s' this)) = 1
                  then markChildAsChanged_fuel n p (key (heap s' this)) Changed s'
                  else Ok () s'
              | None \<Rightarrow> Ok () s'))"

definition markChildAsChanged ::
  "addr \<Rightarrow> string \<Rightarrow> ChangeType \<Rightarrow> 's Store_scheme \<Rightarrow> (unit, 's Store_scheme) Result" where
  "markChildAsChanged this k t s = markChildAsChanged_fuel (nextAddr s) this k t s"

text \<open>
  \<^verbatim>\<open>disconnect()\<close>: the children first, then \<^verbatim>\<open>publisher.complete()\<close>. The
  recursion descends the child references.
\<close>

fun disconnect_fuel :: "nat \<Rightarrow> addr \<Rightarrow> 's Store_scheme \<Rightarrow> (unit, 's Store_scheme) Result" where
  "disconnect_fuel 0 this s = OutOfFuel"
| "disconnect_fuel (Suc n) this s =
     andThen (forEach (\<lambda>(k, node). disconnect_fuel n node) (children (heap s this)) s)
       (\<lambda>_ s'. Ok () (publish this Complete s'))"

definition disconnect :: "addr \<Rightarrow> 's Store_scheme \<Rightarrow> (unit, 's Store_scheme) Result" where
  "disconnect this s = disconnect_fuel (nextAddr s) this s"

definition removeAllChildren :: "addr \<Rightarrow> 's Store_scheme \<Rightarrow> (unit, 's Store_scheme) Result" where
  "removeAllChildren this s =
     andThen
       (forEach (\<lambda>(k, node) s1. andThen (markChildAsChanged this k Removed s1) (\<lambda>_. disconnect node))
          (children (heap s this)) s)
       (\<lambda>_ s'. Ok () (modify this (\<lambda>me. me\<lparr>children := []\<rparr>) s'))"

definition setValueInternal ::
  "addr \<Rightarrow> PrimitiveValue option \<Rightarrow> 's Store_scheme \<Rightarrow> (unit, 's Store_scheme) Result" where
  "setValueInternal this newValue s =
     andThen (if truthy newValue then removeAllChildren this s else Ok () s)
       (\<lambda>_ s'. Ok () (modify this (\<lambda>me. me\<lparr>val := newValue\<rparr>) s'))"

text \<open>\<^verbatim>\<open>setValue(value)\<close> returns false when the value is the one already stored.\<close>

definition setValue ::
  "addr \<Rightarrow> PrimitiveValue \<Rightarrow> 's Store_scheme \<Rightarrow> (bool, 's Store_scheme) Result" where
  "setValue this v s =
     (if Some v = val (heap s this) then Ok False s
      else andThen (setValueInternal this (Some v) s)
        (\<lambda>_ s1. case parent (heap s1 this) of
                  Some p \<Rightarrow> andThen (markChildAsChanged p (key (heap s1 this)) Changed s1) (\<lambda>_. Ok True)
                | None \<Rightarrow> Ok True s1))"

definition setDirectChild :: "addr \<Rightarrow> string \<Rightarrow> 's Store_scheme \<Rightarrow> (addr, 's Store_scheme) Result" where
  "setDirectChild this k s =
     andThen (if truthy (val (heap s this)) then setValueInternal this None s else Ok () s)
       (\<lambda>_ s1.
          let old = getDirectChild this k s1;
              changeType = (if old \<noteq> None then Changed else Added)
          in andThen (case old of Some node \<Rightarrow> disconnect node s1 | None \<Rightarrow> Ok () s1)
               (\<lambda>_ s2.
                  let (node, s3) = newNode (Some this) k s2;
                      s4 = modify this (\<lambda>me. me\<lparr>children := AList.update k node (children me)\<rparr>) s3
                  in andThen (markChildAsChanged this k changeType s4) (\<lambda>_. Ok node)))"

definition resolveDirectChild :: "addr \<Rightarrow> string \<Rightarrow> 's Store_scheme \<Rightarrow> (addr, 's Store_scheme) Result" where
  "resolveDirectChild this k s =
     (case getDirectChild this k s of
        Some node \<Rightarrow> Ok node s
      | None \<Rightarrow>
          let (node, s1) = newNode (Some this) k s;
              s2 = modify this (\<lambda>me. me\<lparr>children := AList.update k node (children me)\<rparr>) s1
          in andThen (markChildAsChanged this k Added s2) (\<lambda>_. Ok node))"

fun resolveChild :: "addr \<Rightarrow> string list \<Rightarrow> 's Store_scheme \<Rightarrow> (addr, 's Store_scheme) Result" where
  "resolveChild this [] s = Ok this s"
| "resolveChild this (k # path) s =
     (if k = [] then Ok this s
      else andThen (if truthy (val (heap s this)) then setValueInternal this None s else Ok () s)
        (\<lambda>_ s1. andThen (resolveDirectChild this k s1) (\<lambda>node. resolveChild node path)))"

definition removeDirectChild :: "addr \<Rightarrow> string \<Rightarrow> 's Store_scheme \<Rightarrow> (unit, 's Store_scheme) Result" where
  "removeDirectChild this k s =
     (case getDirectChild this k s of
        None \<Rightarrow> Ok () s
      | Some node \<Rightarrow>
          andThen (markChildAsChanged this k Removed s)
            (\<lambda>_ s1. andThen (disconnect node s1)
               (\<lambda>_ s2. Ok () (modify this (\<lambda>me. me\<lparr>children := AList.delete k (children me)\<rparr>) s2))))"

fun resetChangedNodes_fuel :: "nat \<Rightarrow> addr \<Rightarrow> 's Store_scheme \<Rightarrow> (unit, 's Store_scheme) Result" where
  "resetChangedNodes_fuel 0 this s = OutOfFuel"
| "resetChangedNodes_fuel (Suc n) this s =
     andThen
       (forEach (\<lambda>(k, t) s1.
           if t \<noteq> Removed then
             (case getDirectChild this k s1 of
                None \<Rightarrow> Threw (ChildDoesNotExist k (key (heap s1 this))) s1
              | Some node \<Rightarrow> resetChangedNodes_fuel n node s1)
           else Ok () s1)
          (changedNodes (heap s this)) s)
       (\<lambda>_ s'. Ok () (modify this (\<lambda>me. me\<lparr>changedNodes := []\<rparr>) s'))"

definition resetChangedNodes :: "addr \<Rightarrow> 's Store_scheme \<Rightarrow> (unit, 's Store_scheme) Result" where
  "resetChangedNodes this s = resetChangedNodes_fuel (nextAddr s) this s"

definition fireSelfNotifications :: "addr \<Rightarrow> 's Store_scheme \<Rightarrow> 's Store_scheme" where
  "fireSelfNotifications this s = publish this (Next (NodeEvent ValueChanged this)) s"

text \<open>
  \<^verbatim>\<open>fireChildrenNotifications()\<close>: one pass over the ledger in its iteration order. A
  removed child is announced with a node made for the purpose,
  \<^verbatim>\<open>new Node(null, key)\<close>; an added or changed child is announced, flushed itself,
  and then publishes its own ValueChanged.
\<close>

fun fireChildrenNotifications_fuel ::
  "nat \<Rightarrow> addr \<Rightarrow> 's Store_scheme \<Rightarrow> (unit, 's Store_scheme) Result" where
  "fireChildrenNotifications_fuel 0 this s = OutOfFuel"
| "fireChildrenNotifications_fuel (Suc n) this s =
     andThen
       (forEach (\<lambda>(k, t) s1.
           case t of
             Removed \<Rightarrow>
               (let (node, s2) = newNode None k s1
                in Ok () (publish this (Next (NodeEvent ChildRemoved node)) s2))
           | Added \<Rightarrow>
               (case getDirectChild this k s1 of
                  None \<Rightarrow> Threw (ChildDoesNotExist k (key (heap s1 this))) s1
                | Some node \<Rightarrow>
                    andThen (fireChildrenNotifications_fuel n node
                               (publish this (Next (NodeEvent ChildAdded node)) s1))
                      (\<lambda>_ s2. Ok () (fireSelfNotifications node s2)))
           | Changed \<Rightarrow>
               (case getDirectChild this k s1 of
                  None \<Rightarrow> Threw (ChildDoesNotExist k (key (heap s1 this))) s1
                | Some node \<Rightarrow>
                    andThen (fireChildrenNotifications_fuel n node
                               (publish this (Next (NodeEvent ChildChanged node)) s1))
                      (\<lambda>_ s2. Ok () (fireSelfNotifications node s2))))
          (changedNodes (heap s this)) s)
       (\<lambda>_ s'.
          let s'' = (if parent (heap s' this) = None \<and> length (changedNodes (heap s' this)) > 0
                     then fireSelfNotifications this s' else s')
          in Ok () (modify this (\<lambda>me. me\<lparr>changedNodes := []\<rparr>) s''))"

definition fireChildrenNotifications :: "addr \<Rightarrow> 's Store_scheme \<Rightarrow> (unit, 's Store_scheme) Result" where
  "fireChildrenNotifications this s = fireChildrenNotifications_fuel (nextAddr s) this s"

text \<open>
  \<^verbatim>\<open>clone(parent)\<close>: a new node with this node's key and value, and a clone of every
  child under the child's key.
\<close>

fun clone_fuel ::
  "nat \<Rightarrow> addr \<Rightarrow> addr option \<Rightarrow> 's Store_scheme \<Rightarrow> (addr, 's Store_scheme) Result" where
  "clone_fuel 0 this p s = OutOfFuel"
| "clone_fuel (Suc n) this p s =
     (let (res, s1) = newNode p (key (heap s this)) s
      in andThen (setValueInternal res (val (heap s1 this)) s1)
           (\<lambda>_ s2. andThen
              (forEach (\<lambda>(k, node) s3.
                  andThen (clone_fuel n node (Some res) s3)
                    (\<lambda>c s4. Ok () (modify res (\<lambda>me. me\<lparr>children := AList.update k c (children me)\<rparr>) s4)))
                 (children (heap s2 this)) s2)
              (\<lambda>_. Ok res)))"

definition clone :: "addr \<Rightarrow> addr option \<Rightarrow> 's Store_scheme \<Rightarrow> (addr, 's Store_scheme) Result" where
  "clone this p s = clone_fuel (nextAddr s) this p s"

text \<open>
  \<^verbatim>\<open>isEqual(other)\<close> reads the store only; \<open>None\<close> is the recursion out of fuel. The
  \<^verbatim>\<open>forEach\<close> of the source visits every child, also after one was found unequal.
\<close>

fun isEqual_fuel :: "nat \<Rightarrow> addr \<Rightarrow> addr option \<Rightarrow> 's Store_scheme \<Rightarrow> bool option" where
  "isEqual_fuel 0 this other s = None"
| "isEqual_fuel (Suc n) this other s =
     (case other of
        None \<Rightarrow> Some False
      | Some ot \<Rightarrow>
          if val (heap s this) \<noteq> val (heap s ot) then Some False
          else if length (children (heap s this)) \<noteq> length (children (heap s ot)) then Some False
          else map_option (list_all (\<lambda>b. b))
                 (those (map (\<lambda>(k, child).
                     case getDirectChild ot k s of
                       None \<Rightarrow> Some False
                     | Some otherChild \<Rightarrow> isEqual_fuel n child (Some otherChild) s)
                   (children (heap s this)))))"

definition isEqual :: "addr \<Rightarrow> addr option \<Rightarrow> 's Store_scheme \<Rightarrow> bool option" where
  "isEqual this other s = isEqual_fuel (nextAddr s) this other s"

datatype JsonValue = JPrimitive PrimitiveValue | JObject "(string \<times> JsonValue) list"

fun toJSON_fuel :: "nat \<Rightarrow> addr \<Rightarrow> 's Store_scheme \<Rightarrow> JsonValue option" where
  "toJSON_fuel 0 this s = None"
| "toJSON_fuel (Suc n) this s =
     (case val (heap s this) of
        Some v \<Rightarrow> Some (JPrimitive v)
      | None \<Rightarrow>
          map_option JObject
            (fold (\<lambda>(k, child) acc.
                case acc of
                  None \<Rightarrow> None
                | Some obj \<Rightarrow>
                    (case toJSON_fuel n child s of
                       None \<Rightarrow> None
                     | Some j \<Rightarrow> Some (AList.update (key (heap s child)) j obj)))
               (children (heap s this)) (Some [])))"

definition toJSON :: "addr \<Rightarrow> 's Store_scheme \<Rightarrow> JsonValue option" where
  "toJSON this s = toJSON_fuel (nextAddr s) this s"

fun pathFromRoot_fuel :: "nat \<Rightarrow> addr \<Rightarrow> 's Store_scheme \<Rightarrow> string list option" where
  "pathFromRoot_fuel 0 this s = None"
| "pathFromRoot_fuel (Suc n) this s =
     (case parent (heap s this) of
        Some p \<Rightarrow> map_option (\<lambda>path. path @ [key (heap s this)]) (pathFromRoot_fuel n p s)
      | None \<Rightarrow> Some [])"

definition pathFromRoot :: "addr \<Rightarrow> 's Store_scheme \<Rightarrow> string list option" where
  "pathFromRoot this s = pathFromRoot_fuel (nextAddr s) this s"

section \<open>TreeStorage\<close>

text \<open>
  A promise for the node of a path (\<^verbatim>\<open>getNodePromise\<close>): pending, or resolved with
  what \<^verbatim>\<open>getNode\<close> gave. A resolve callback is identified by the index of its promise.
\<close>

datatype NodePromise = Pending | Resolved "addr option"

record TreeStorage = Store +
  root :: addr
  pendingNodeCallbacks :: "(string \<times> nat list) list"
  promises :: "NodePromise list"

text \<open>\<^verbatim>\<open>new TreeStorage()\<close>: \<^verbatim>\<open>root = new Node(null, '')\<close> in an empty store.\<close>

definition blankNode :: Node where
  "blankNode = \<lparr>parent = None, key = [], val = None, children = [], changedNodes = []\<rparr>"

definition newTreeStorage :: TreeStorage where
  "newTreeStorage =
     \<lparr>heap = (\<lambda>_. blankNode), nextAddr = Suc 0, emitted = [],
      root = 0, pendingNodeCallbacks = [], promises = []\<rparr>"

text \<open>\<^verbatim>\<open>path.split('/')\<close> and \<^verbatim>\<open>keys.join('/')\<close>.\<close>

fun split :: "string \<Rightarrow> string list" where
  "split [] = [[]]"
| "split (c # cs) =
     (if c = CHR ''/'' then [] # split cs
      else case split cs of
             w # ws \<Rightarrow> (c # w) # ws
           | [] \<Rightarrow> [[c]])"

fun join :: "string list \<Rightarrow> string" where
  "join [] = []"
| "join [k] = k"
| "join (k # ks) = k @ ''/'' @ join ks"

definition getNode :: "string \<Rightarrow> 's TreeStorage_scheme \<Rightarrow> addr option" where
  "getNode path s = (if path = [] then Some (root s) else getChild (root s) (split path) s)"

definition resolveNode :: "string \<Rightarrow> 's TreeStorage_scheme \<Rightarrow> (addr, 's TreeStorage_scheme) Result" where
  "resolveNode path s = resolveChild (root s) (split path) s"

text \<open>
  \<^verbatim>\<open>getNodePromise(path)\<close> returns the promise and, when the node does not exist yet,
  the callback it parked under the path.
\<close>

definition getNodePromise ::
  "string \<Rightarrow> 's TreeStorage_scheme \<Rightarrow> (nat \<times> nat option) \<times> 's TreeStorage_scheme" where
  "getNodePromise path s =
     (let p = length (promises s)
      in case getNode path s of
           Some node \<Rightarrow> ((p, None), s\<lparr>promises := promises s @ [Resolved (Some node)]\<rparr>)
         | None \<Rightarrow>
             ((p, Some p),
              s\<lparr>promises := promises s @ [Pending],
                pendingNodeCallbacks :=
                  (case map_of (pendingNodeCallbacks s) path of
                     Some callbacks \<Rightarrow> AList.update path (callbacks @ [p]) (pendingNodeCallbacks s)
                   | None \<Rightarrow> AList.update path [p] (pendingNodeCallbacks s))\<rparr>))"

definition cleanupNodePromise ::
  "string \<Rightarrow> nat option \<Rightarrow> 's TreeStorage_scheme \<Rightarrow> 's TreeStorage_scheme" where
  "cleanupNodePromise path callback s =
     (case callback of
        None \<Rightarrow> s
      | Some cb \<Rightarrow>
          (case map_of (pendingNodeCallbacks s) path of
             None \<Rightarrow> s
           | Some callbacks \<Rightarrow>
               let callbacks' = filter (\<lambda>c. c \<noteq> cb) callbacks
               in if length callbacks' > 0
                  then s\<lparr>pendingNodeCallbacks := AList.update path callbacks' (pendingNodeCallbacks s)\<rparr>
                  else s\<lparr>pendingNodeCallbacks := AList.delete path (pendingNodeCallbacks s)\<rparr>))"

text \<open>Calling a parked \<^verbatim>\<open>resolve\<close>: a promise is settled once.\<close>

definition resolvePromise :: "addr option \<Rightarrow> nat \<Rightarrow> 's TreeStorage_scheme \<Rightarrow> 's TreeStorage_scheme" where
  "resolvePromise node cb s =
     (if cb < length (promises s) \<and> promises s ! cb = Pending
      then s\<lparr>promises := (promises s)[cb := Resolved node]\<rparr> else s)"

fun onNodeModified_from ::
  "nat \<Rightarrow> string \<Rightarrow> string list \<Rightarrow> 's TreeStorage_scheme \<Rightarrow> 's TreeStorage_scheme" where
  "onNodeModified_from idx subpath [] s = s"
| "onNodeModified_from idx subpath (k # ks) s =
     (let subpath' = subpath @ (if idx > 0 then ''/'' @ k else k);
          node = getNode subpath' s;
          s' = (case map_of (pendingNodeCallbacks s) subpath' of
                  Some callbacks \<Rightarrow>
                    (let s1 = fold (resolvePromise node) callbacks s
                     in s1\<lparr>pendingNodeCallbacks := AList.delete subpath' (pendingNodeCallbacks s1)\<rparr>)
                | None \<Rightarrow> s)
      in onNodeModified_from (Suc idx) subpath' ks s')"

definition onNodeModified :: "string \<Rightarrow> 's TreeStorage_scheme \<Rightarrow> 's TreeStorage_scheme" where
  "onNodeModified path s = onNodeModified_from 0 [] (split path) s"



definition observe ::
  "string \<Rightarrow> 's TreeStorage_scheme \<Rightarrow> (nat \<times> nat option) \<times> 's TreeStorage_scheme" where
  "observe path s = getNodePromise path s"



definition TreeStorage_setValue ::
  "string \<Rightarrow> PrimitiveValue \<Rightarrow> 's TreeStorage_scheme \<Rightarrow> (unit, 's TreeStorage_scheme) Result" where
  "TreeStorage_setValue path v s =
     andThen (resolveNode path s)
       (\<lambda>node s1. andThen (setValue node v s1) (\<lambda>_ s2. Ok () (onNodeModified path s2)))"

text \<open>
  \<^verbatim>\<open>values\<close> is a JavaScript object: the list of its entries in the order of
  \<^verbatim>\<open>Object.keys(values)\<close>, each key once.
\<close>

definition writeValues ::
  "addr \<Rightarrow> (string \<times> PrimitiveValue) list \<Rightarrow> 's Store_scheme \<Rightarrow> (unit, 's Store_scheme) Result" where
  "writeValues node vals s =
     forEach (\<lambda>(k, v) s1.
        andThen (resolveChild node (split k) s1)
          (\<lambda>child s2. andThen (setValue child v s2) (\<lambda>_. Ok ())))
       vals s"

definition notifyValues ::
  "string \<Rightarrow> (string \<times> PrimitiveValue) list \<Rightarrow> 's TreeStorage_scheme \<Rightarrow> 's TreeStorage_scheme" where
  "notifyValues path vals s =
     fold (\<lambda>(k, v). onNodeModified (if length path > 0 then path @ ''/'' @ k else k)) vals s"

definition TreeStorage_setValues ::
  "string \<Rightarrow> (string \<times> PrimitiveValue) list \<Rightarrow> 's TreeStorage_scheme
     \<Rightarrow> (unit, 's TreeStorage_scheme) Result" where
  "TreeStorage_setValues path vals s =
     andThen (resolveNode path s)
       (\<lambda>node s1. andThen (removeAllChildren node s1)
          (\<lambda>_ s2. andThen (writeValues node vals s2)
             (\<lambda>_ s3. Ok () (onNodeModified path (notifyValues path vals s3)))))"

definition updateValues ::
  "string \<Rightarrow> (string \<times> PrimitiveValue) list \<Rightarrow> 's TreeStorage_scheme
     \<Rightarrow> (unit, 's TreeStorage_scheme) Result" where
  "updateValues path vals s =
     andThen (resolveNode path s)
       (\<lambda>node s1. andThen (writeValues node vals s1)
          (\<lambda>_ s2. Ok () (onNodeModified path (notifyValues path vals s2))))"

text \<open>
  \<^verbatim>\<open>removeValue(path)\<close>: \<^verbatim>\<open>splitPath.pop()\<close> takes the last key off the split path;
  \<^verbatim>\<open>node && key\<close> asks for an existing parent and a non-empty key.
\<close>

definition removeValue :: "string \<Rightarrow> 's TreeStorage_scheme \<Rightarrow> (unit, 's TreeStorage_scheme) Result" where
  "removeValue path s =
     (let splitPath = split path;
          k = last splitPath;
          node = getChild (root s) (butlast splitPath) s
      in case node of
           Some n \<Rightarrow> if k \<noteq> [] then removeDirectChild n k s else Ok () s
         | None \<Rightarrow> Ok () s)"

definition resetRecordedChanges :: "'s TreeStorage_scheme \<Rightarrow> (unit, 's TreeStorage_scheme) Result" where
  "resetRecordedChanges s = resetChangedNodes (root s) s"

definition triggerRecordChangeNotifications ::
  "'s TreeStorage_scheme \<Rightarrow> (unit, 's TreeStorage_scheme) Result" where
  "triggerRecordChangeNotifications s = fireChildrenNotifications (root s) s"

section \<open>Modifications and TreeDatabase\<close>

datatype Modification =
    SetValue string PrimitiveValue
  | SetValues string "(string \<times> PrimitiveValue) list"
  | Update string "(string \<times> PrimitiveValue) list"
  | Remove string

datatype ModificationSource = Local | Remote

record AttributedModification =
  modification :: Modification
  source :: ModificationSource

text \<open>
  The database: its storage, the \<^verbatim>\<open>readonly\<close> flag, and what its \<^verbatim>\<open>publisher\<close>
  (the stream of local modifications) was told. The scheduler and the push id generator
  take no part in what follows.
\<close>

record TreeDatabase = TreeStorage +
  readonly :: bool
  publisher :: "Modification list"

definition newTreeDatabase :: "bool \<Rightarrow> TreeDatabase" where
  "newTreeDatabase ro =
     \<lparr>heap = (\<lambda>_. blankNode), nextAddr = Suc 0, emitted = [],
      root = 0, pendingNodeCallbacks = [], promises = [],
      readonly = ro, publisher = []\<rparr>"

text \<open>
  \<^verbatim>\<open>applyModification(change)\<close>, the \<^verbatim>\<open>next\<close> of the \<^verbatim>\<open>modificationSink\<close>: the
  \<^verbatim>\<open>switch\<close> applies the modification and computes \<^verbatim>\<open>suppressNotifications\<close>, the
  \<^verbatim>\<open>if\<close> after it flushes or resets.
\<close>

definition applyModification ::
  "AttributedModification \<Rightarrow> TreeDatabase \<Rightarrow> (unit, TreeDatabase) Result" where
  "applyModification change db =
     (let isLocal = (source change = Local)
      in andThen
           (case modification change of
              SetValue path v \<Rightarrow>
                andThen (TreeStorage_setValue path v db) (\<lambda>_. Ok False)
            | SetValues path vals \<Rightarrow>
                andThen
                  (if isLocal
                   then case getNode path db of
                          Some node \<Rightarrow> andThen (clone node None db) (\<lambda>c. Ok (Some c))
                        | None \<Rightarrow> Ok None db
                   else Ok None db)
                  (\<lambda>cl s1. andThen (TreeStorage_setValues path vals s1)
                     (\<lambda>_ s2.
                        if isLocal then
                          (case cl of
                             Some c \<Rightarrow>
                               (case isEqual c (getNode path s2) s2 of
                                  Some b \<Rightarrow> Ok b s2
                                | None \<Rightarrow> OutOfFuel)
                           | None \<Rightarrow> Ok False s2)
                        else Ok False s2))
            | Update path vals \<Rightarrow>
                andThen (updateValues path vals db) (\<lambda>_. Ok False)
            | Remove path \<Rightarrow>
                andThen (removeValue path db) (\<lambda>_. Ok False))
           (\<lambda>suppressNotifications s.
              if \<not> suppressNotifications then triggerRecordChangeNotifications s
              else resetRecordedChanges s))"

section \<open>TreeDatabaseRef\<close>

text \<open>A reference is its path; the database is the state the operations run in.\<close>

definition TreeDatabaseRef_setValue ::
  "string \<Rightarrow> PrimitiveValue \<Rightarrow> TreeDatabase \<Rightarrow> (unit, TreeDatabase) Result" where
  "TreeDatabaseRef_setValue path v db =
     (if readonly db then Threw ReadonlyDatabase db
      else andThen (TreeStorage_setValue path v db)
        (\<lambda>_ s1. triggerRecordChangeNotifications
                   (s1\<lparr>publisher := publisher s1 @ [SetValue path v]\<rparr>)))"

definition TreeDatabaseRef_setValues ::
  "string \<Rightarrow> (string \<times> PrimitiveValue) list \<Rightarrow> TreeDatabase \<Rightarrow> (unit, TreeDatabase) Result" where
  "TreeDatabaseRef_setValues path vals db =
     (if readonly db then Threw ReadonlyDatabase db
      else andThen (TreeStorage_setValues path vals db)
        (\<lambda>_ s1. triggerRecordChangeNotifications
                   (s1\<lparr>publisher := publisher s1 @ [SetValues path vals]\<rparr>)))"

definition TreeDatabaseRef_update ::
  "string \<Rightarrow> (string \<times> PrimitiveValue) list \<Rightarrow> TreeDatabase \<Rightarrow> (unit, TreeDatabase) Result" where
  "TreeDatabaseRef_update path vals db =
     (if readonly db then Threw ReadonlyDatabase db
      else andThen (updateValues path vals db)
        (\<lambda>_ s1. triggerRecordChangeNotifications
                   (s1\<lparr>publisher := publisher s1 @ [Update path vals]\<rparr>)))"

definition TreeDatabaseRef_remove :: "string \<Rightarrow> TreeDatabase \<Rightarrow> (unit, TreeDatabase) Result" where
  "TreeDatabaseRef_remove path db =
     (if readonly db then Threw ReadonlyDatabase db
      else andThen (removeValue path db)
        (\<lambda>_ s1. triggerRecordChangeNotifications
                   (s1\<lparr>publisher := publisher s1 @ [Remove path]\<rparr>)))"

text \<open>
  \<^verbatim>\<open>getValue()\<close> wraps a promise around the first ValueChanged event of
  \<^verbatim>\<open>changes\<close>. Its observer is
  \<^verbatim>\<open>{ next: (event) => resolve(event.value.toJSON()), error: () => reject }\<close>: the
  error handler is a function that returns \<^verbatim>\<open>reject\<close> and does not call it. A stream
  that completes without an event makes \<^verbatim>\<open>first()\<close> signal an error.
\<close>

datatype 'a Promise = Unsettled | Fulfilled 'a | Rejected string

definition resolve :: "'a \<Rightarrow> 'a Promise \<Rightarrow> 'a Promise" where
  "resolve v p = (case p of Unsettled \<Rightarrow> Fulfilled v | _ \<Rightarrow> p)"

definition reject :: "string \<Rightarrow> 'a Promise \<Rightarrow> 'a Promise" where
  "reject e p = (case p of Unsettled \<Rightarrow> Rejected e | _ \<Rightarrow> p)"

datatype StreamSignal = OnNext JsonValue | OnError string | OnComplete

fun getValue_observer :: "StreamSignal \<Rightarrow> JsonValue Promise \<Rightarrow> JsonValue Promise" where
  "getValue_observer (OnNext json) p = resolve json p"
| "getValue_observer (OnError e) p = p"
| "getValue_observer OnComplete p = p"

section \<open>TreeDataSnapshot\<close>

record TreeDataSnapshot =
  snapNode :: addr
  snapPath :: string
  snapKey :: string

text \<open>\<^verbatim>\<open>TreeDataSnapshot.take(database, node)\<close>: the path of the node and a clone of it.\<close>

definition take :: "addr \<Rightarrow> 's Store_scheme \<Rightarrow> (TreeDataSnapshot, 's Store_scheme) Result" where
  "take node s =
     (case pathFromRoot node s of
        None \<Rightarrow> OutOfFuel
      | Some keys \<Rightarrow>
          andThen (clone node None s)
            (\<lambda>c. Ok \<lparr>snapNode = c, snapPath = join keys, snapKey = key (heap s node)\<rparr>))"

definition snapshot_value :: "TreeDataSnapshot \<Rightarrow> 's Store_scheme \<Rightarrow> PrimitiveValue option" where
  "snapshot_value snap s = val (heap s (snapNode snap))"

definition snapshot_children :: "TreeDataSnapshot \<Rightarrow> 's Store_scheme \<Rightarrow> TreeDataSnapshot list" where
  "snapshot_children snap s =
     map (\<lambda>(k, child).
            \<lparr>snapNode = child, snapPath = snapPath snap @ ''/'' @ key (heap s child),
             snapKey = key (heap s child)\<rparr>)
       (children (heap s (snapNode snap)))"

definition snapshot_hasChild :: "TreeDataSnapshot \<Rightarrow> string \<Rightarrow> 's Store_scheme \<Rightarrow> bool" where
  "snapshot_hasChild snap path s = (getChild (snapNode snap) (split path) s \<noteq> None)"

definition snapshot_child ::
  "TreeDataSnapshot \<Rightarrow> string \<Rightarrow> 's Store_scheme \<Rightarrow> TreeDataSnapshot option" where
  "snapshot_child snap path s =
     (case getChild (snapNode snap) (split path) s of
        Some node \<Rightarrow>
          Some \<lparr>snapNode = node, snapPath = snapPath snap @ ''/'' @ path, snapKey = key (heap s node)\<rparr>
      | None \<Rightarrow> None)"

definition snapshot_toJSON :: "TreeDataSnapshot \<Rightarrow> 's Store_scheme \<Rightarrow> JsonValue option" where
  "snapshot_toJSON snap s = toJSON (snapNode snap) s"

section \<open>Predicates and scenarios used in the statements\<close>

text \<open>Every parent reference points to a node that was made earlier.\<close>

definition parentsBelow :: "'s Store_scheme \<Rightarrow> bool" where
  "parentsBelow s = (\<forall>a p. parent (heap s a) = Some p \<longrightarrow> p < a)"

definition emittedOf :: "('a, 's Store_scheme) Result \<Rightarrow> (addr \<times> Notification) list" where
  "emittedOf r = (case r of Ok x s \<Rightarrow> emitted s | Threw e s \<Rightarrow> emitted s | OutOfFuel \<Rightarrow> [])"

text \<open>The node object found at a path once a sequence of calls has returned.\<close>

definition nodeAt :: "string \<Rightarrow> ('a, 's TreeStorage_scheme) Result \<Rightarrow> Node option" where
  "nodeAt path r =
     (case r of
        Ok x s \<Rightarrow> (case getNode path s of Some n \<Rightarrow> Some (heap s n) | None \<Rightarrow> None)
      | _ \<Rightarrow> None)"

text \<open>A root with the one child \<open>a\<close> and a given ledger.\<close>

definition ledgerStore :: "(string \<times> ChangeType) list \<Rightarrow> Store" where
  "ledgerStore l =
     \<lparr>heap = (\<lambda>_. blankNode)
        (Suc 0 := \<lparr>parent = Some 0, key = ''a'', val = None, children = [], changedNodes = []\<rparr>,
         0 := \<lparr>parent = None, key = [], val = None, children = [(''a'', Suc 0)], changedNodes = l\<rparr>),
      nextAddr = Suc (Suc 0), emitted = []\<rparr>"

text \<open>
  \<^verbatim>\<open>ref('a').setValues({x: 1})\<close> then \<^verbatim>\<open>ref('a').setValue(v)\<close>, and
  \<^verbatim>\<open>ref('a').setValue(v)\<close> then \<^verbatim>\<open>ref('a/b').setValue(1)\<close>, on a new database.
\<close>

definition valueOverChildren :: "PrimitiveValue \<Rightarrow> (unit, TreeDatabase) Result" where
  "valueOverChildren v =
     andThen (TreeDatabaseRef_setValues ''a'' [(''x'', PNumber 1)] (newTreeDatabase False))
       (\<lambda>_. TreeDatabaseRef_setValue ''a'' v)"

definition childUnderValue :: "PrimitiveValue \<Rightarrow> (unit, TreeDatabase) Result" where
  "childUnderValue v =
     andThen (TreeDatabaseRef_setValue ''a'' v (newTreeDatabase False))
       (\<lambda>_. TreeDatabaseRef_setValue ''a/b'' (PNumber 1))"

text \<open>
  The sink is fed \<^verbatim>\<open>SetValues('a', {x: 1})\<close> tagged Local on a new database, and then
  the same modification again under the given tag.
\<close>

definition localWrite :: "(unit, TreeDatabase) Result" where
  "localWrite =
     applyModification \<lparr>modification = SetValues ''a'' [(''x'', PNumber 1)], source = Local\<rparr>
       (newTreeDatabase False)"

definition echo :: "ModificationSource \<Rightarrow> (unit, TreeDatabase) Result" where
  "echo src =
     andThen localWrite
       (\<lambda>_. applyModification \<lparr>modification = SetValues ''a'' [(''x'', PNumber 1)], source = src\<rparr>)"

text \<open>
  The repeated Local write up to the point where its notifications are dealt with: the
  node at \<open>a\<close> (the node 1) is cloned and the values are set.
\<close>

definition echoApplied :: "(unit, TreeDatabase) Result" where
  "echoApplied =
     andThen localWrite
       (\<lambda>_ db. andThen (clone 1 None db) (\<lambda>_. TreeStorage_setValues ''a'' [(''x'', PNumber 1)]))"

text \<open>The ledgers of all nodes made so far, in the order of their making.\<close>

definition ledgersOf :: "('a, 's Store_scheme) Result \<Rightarrow> (string \<times> ChangeType) list list option" where
  "ledgersOf r =
     (case r of
        Ok x s \<Rightarrow> Some (map (\<lambda>a. changedNodes (heap s a)) [0..<nextAddr s])
      | _ \<Rightarrow> None)"

text \<open>A result with a function applied to the state it carries.\<close>

definition mapState :: "('s \<Rightarrow> 't) \<Rightarrow> ('a, 's) Result \<Rightarrow> ('a, 't) Result" where
  "mapState g r =
     (case r of Ok x s \<Rightarrow> Ok x (g s) | Threw e s \<Rightarrow> Threw e (g s) | OutOfFuel \<Rightarrow> OutOfFuel)"

abbreviation setReadonly :: "bool \<Rightarrow> TreeDatabase \<Rightarrow> TreeDatabase" where
  "setReadonly b \<equiv> readonly_update (\<lambda>_. b)"

text \<open>The storage operation that belongs to a modification.\<close>

definition applyToStorage ::
  "Modification \<Rightarrow> 's TreeStorage_scheme \<Rightarrow> (unit, 's TreeStorage_scheme) Result" where
  "applyToStorage m s =
     (case m of
        SetValue path v \<Rightarrow> TreeStorage_setValue path v s
      | SetValues path vals \<Rightarrow> TreeStorage_setValues path vals s
      | Update path vals \<Rightarrow> updateValues path vals s
      | Remove path \<Rightarrow> removeValue path s)"

text \<open>The state a sequence of calls ends in (\<open>d\<close> when it does not end).\<close>

definition finalState :: "('a, 's) Result \<Rightarrow> 's \<Rightarrow> 's" where
  "finalState r d = (case r of Ok x s \<Rightarrow> s | Threw e s \<Rightarrow> s | OutOfFuel \<Rightarrow> d)"


text \<open>
  The subpaths \<^verbatim>\<open>onNodeModified(path)\<close> goes through, in order, and the paths a
  storage operation hands to \<^verbatim>\<open>onNodeModified\<close>: \<^verbatim>\<open>setValue\<close> its path,
  \<^verbatim>\<open>setValues\<close> and \<^verbatim>\<open>updateValues\<close> the path of each key and then their path,
  \<^verbatim>\<open>removeValue\<close> none.
\<close>

fun subpaths_from :: "nat \<Rightarrow> string \<Rightarrow> string list \<Rightarrow> string list" where
  "subpaths_from idx subpath [] = []"
| "subpaths_from idx subpath (k # ks) =
     (let subpath' = subpath @ (if idx > 0 then ''/'' @ k else k)
      in subpath' # subpaths_from (Suc idx) subpath' ks)"

definition subpaths :: "string \<Rightarrow> string list" where
  "subpaths path = subpaths_from 0 [] (split path)"

definition notified :: "Modification \<Rightarrow> string list" where
  "notified m =
     (case m of
        SetValue path v \<Rightarrow> [path]
      | SetValues path vals \<Rightarrow>
          map (\<lambda>(k, v). if length path > 0 then path @ ''/'' @ k else k) vals @ [path]
      | Update path vals \<Rightarrow>
          map (\<lambda>(k, v). if length path > 0 then path @ ''/'' @ k else k) vals @ [path]
      | Remove path \<Rightarrow> [])"

definition visited :: "Modification \<Rightarrow> string list" where
  "visited m = concat (map subpaths (notified m))"

text \<open>
  Every parked callback belongs to a promise that was made; and a subscription that
  waits: its promise is pending and its callback is parked under its path and under no
  other.
\<close>

definition callbacksBelow :: "'s TreeStorage_scheme \<Rightarrow> bool" where
  "callbacksBelow s =
     (\<forall>q cbs. map_of (pendingNodeCallbacks s) q = Some cbs \<longrightarrow> (\<forall>c \<in> set cbs. c < length (promises s)))"

definition parked :: "nat \<Rightarrow> string \<Rightarrow> 's TreeStorage_scheme \<Rightarrow> bool" where
  "parked p path s =
     (p < length (promises s) \<and> promises s ! p = Pending \<and>
      (\<exists>cbs. map_of (pendingNodeCallbacks s) path = Some cbs \<and> p \<in> set cbs) \<and>
      (\<forall>q cbs. map_of (pendingNodeCallbacks s) q = Some cbs \<longrightarrow> p \<in> set cbs \<longrightarrow> q = path))"

text \<open>
  \<^verbatim>\<open>observe(path)\<close> on a new database, and then one storage operation. The operations
  used below: \<^verbatim>\<open>setValue('a/c', 7)\<close> observed at \<open>a/c\<close>, which makes the node;
  \<^verbatim>\<open>setValue('a/d', 7)\<close> observed at \<open>a/c\<close>, which does not go through \<open>a/c\<close>;
  \<^verbatim>\<open>setValues('a', {'c/z': 1, c: 2})\<close> observed at \<open>a/c/z\<close>, which makes the node at
  \<open>a/c/z\<close> and removes it again before the subscriptions are served.
\<close>

definition deferredScenario :: "string \<Rightarrow> TreeDatabase" where
  "deferredScenario path = snd (observe path (newTreeDatabase False))"

definition deferredWrite :: "string \<Rightarrow> Modification \<Rightarrow> TreeDatabase" where
  "deferredWrite path m =
     finalState (applyToStorage m (deferredScenario path)) (deferredScenario path)"

text \<open>
  The nodes below a node: the node itself and the children of the nodes below it.
\<close>

inductive descends :: "'s Store_scheme \<Rightarrow> addr \<Rightarrow> addr \<Rightarrow> bool" for s c where
  self: "descends s c c"
| child: "descends s c a \<Longrightarrow> (k, b) \<in> set (children (heap s a)) \<Longrightarrow> descends s c b"

text \<open>
  Every child of a made node was made after it and before now, refers back to it as
  its parent, and carries the key it is mapped under.
\<close>

definition wellLinked :: "'s Store_scheme \<Rightarrow> bool" where
  "wellLinked s =
     (\<forall>a k c. a < nextAddr s \<longrightarrow> (k, c) \<in> set (children (heap s a)) \<longrightarrow>
        a < c \<and> c < nextAddr s \<and> parent (heap s c) = Some a \<and> key (heap s c) = k)"

text \<open>
  Every ledger names each key once, and a key it marks Added or Changed is a key of the
  children Map.
\<close>

definition ledgersLive :: "'s Store_scheme \<Rightarrow> bool" where
  "ledgersLive s =
     (\<forall>a k t. a < nextAddr s \<longrightarrow> (k, t) \<in> set (changedNodes (heap s a)) \<longrightarrow>
        distinct (map fst (changedNodes (heap s a))) \<and>
        (t \<noteq> Removed \<longrightarrow> map_of (children (heap s a)) k \<noteq> None))"

text \<open>\<^verbatim>\<open>new Node(null, key)\<close> as it is made: no parent, no value, no children.\<close>

definition placeholder :: "string \<Rightarrow> Node" where
  "placeholder k = \<lparr>parent = None, key = k, val = None, children = [], changedNodes = []\<rparr>"

text \<open>
  The flush in the words of the spec. An event is described by the node that publishes
  it, its type, and the node it carries: a node that existed before the flush, or a node
  made during it, given by its content. For each entry of the ledger, in order: Removed
  gives one ChildRemoved with a fresh placeholder of that key; Added or Changed gives
  ChildAdded or ChildChanged with the live child, then the events of the child's own
  flush, then one ValueChanged published by the child. A node without parent with a
  non-empty ledger publishes its own ValueChanged last.
\<close>

datatype Carried = Live addr | Fresh Node

fun flushEvents :: "nat \<Rightarrow> addr \<Rightarrow> 's Store_scheme \<Rightarrow> (addr \<times> TreeDataEventType \<times> Carried) list" where
  "flushEvents 0 this s = []"
| "flushEvents (Suc n) this s =
     concat (map (\<lambda>(k, t).
        case t of
          Removed \<Rightarrow> [(this, ChildRemoved, Fresh (placeholder k))]
        | Added \<Rightarrow>
            (case getDirectChild this k s of
               None \<Rightarrow> []
             | Some c \<Rightarrow> (this, ChildAdded, Live c) # flushEvents n c s @ [(c, ValueChanged, Live c)])
        | Changed \<Rightarrow>
            (case getDirectChild this k s of
               None \<Rightarrow> []
             | Some c \<Rightarrow> (this, ChildChanged, Live c) # flushEvents n c s @ [(c, ValueChanged, Live c)]))
       (changedNodes (heap s this)))
     @ (if parent (heap s this) = None \<and> changedNodes (heap s this) \<noteq> []
        then [(this, ValueChanged, Live this)] else [])"

text \<open>
  The description of a published notification; \<open>lo\<close> is the first address that was
  unused when the flush began.
\<close>

fun describe :: "addr \<Rightarrow> 's Store_scheme \<Rightarrow> addr \<times> Notification \<Rightarrow> (addr \<times> TreeDataEventType \<times> Carried) option" where
  "describe lo s' (a, Next (NodeEvent t node)) =
     Some (a, t, if node < lo then Live node else Fresh (heap s' node))"
| "describe lo s' (a, Complete) = None"

text \<open>
  What a flush may do to the store: clear ledgers of nodes that exist, and make
  placeholders.
\<close>

definition flushStep :: "'s Store_scheme \<Rightarrow> 's Store_scheme \<Rightarrow> bool" where
  "flushStep s s' =
     (nextAddr s \<le> nextAddr s' \<and>
      (\<forall>b. (b < nextAddr s \<longrightarrow>
             heap s' b = heap s b \<or> heap s' b = (heap s b)\<lparr>changedNodes := []\<rparr>) \<and>
           (nextAddr s \<le> b \<and> b < nextAddr s' \<longrightarrow> (\<exists>k. heap s' b = placeholder k))))"

definition carriedBelow :: "addr \<Rightarrow> (addr \<times> Notification) list \<Rightarrow> bool" where
  "carriedBelow m new = (\<forall>a t node. (a, Next (NodeEvent t node)) \<in> set new \<longrightarrow> node < m)"

definition flushed :: "addr \<Rightarrow> nat \<Rightarrow> addr \<Rightarrow> 's Store_scheme \<Rightarrow> 's Store_scheme \<Rightarrow> bool" where
  "flushed lo n c s s' =
     (flushStep s s' \<and>
      (\<forall>b. b < nextAddr s \<longrightarrow> \<not> descends s c b \<longrightarrow> heap s' b = heap s b) \<and>
      (\<exists>new. emitted s' = emitted s @ new \<and>
         map (describe lo s') new = map Some (flushEvents n c s) \<and>
         carriedBelow (nextAddr s') new))"

text \<open>
  A new database after \<^verbatim>\<open>ref('a').setValues({x: 1})\<close> and then, not yet flushed,
  the storage's \<^verbatim>\<open>setValues('a', {y: 2})\<close>.
\<close>

definition flushScenario :: TreeDatabase where
  "flushScenario =
     finalState
       (andThen (TreeDatabaseRef_setValues ''a'' [(''x'', PNumber 1)] (newTreeDatabase False))
          (\<lambda>_. TreeStorage_setValues ''a'' [(''y'', PNumber 2)]))
       (newTreeDatabase False)"

section \<open>Properties\<close>

subsection \<open>Basic facts\<close>

lemma mapState_simps [simp]:
  "mapState g (Ok x s) = Ok x (g s)"
  "mapState g (Threw e s) = Threw e (g s)"
  "mapState g OutOfFuel = OutOfFuel"
  by (simp_all add: mapState_def)

lemma andThen_simps [simp]:
  "andThen (Ok x s) f = f x s"
  "andThen (Threw e s) f = Threw e s"
  "andThen OutOfFuel f = OutOfFuel"
  by (simp_all add: andThen_def)

lemma modify_sel [simp]:
  "heap (modify a f s) = (heap s)(a := f (heap s a))"
  "nextAddr (modify a f s) = nextAddr s"
  "emitted (modify a f s) = emitted s"
  by (simp_all add: modify_def)

lemma publish_sel [simp]:
  "heap (publish a n s) = heap s"
  "nextAddr (publish a n s) = nextAddr s"
  "emitted (publish a n s) = emitted s @ [(a, n)]"
  by (simp_all add: publish_def)

lemma newNode_sel [simp]:
  "fst (newNode p k s) = nextAddr s"
  "heap (snd (newNode p k s)) = (heap s)(nextAddr s :=
     \<lparr>parent = p, key = k, val = None, children = [], changedNodes = []\<rparr>)"
  "nextAddr (snd (newNode p k s)) = Suc (nextAddr s)"
  "emitted (snd (newNode p k s)) = emitted s"
  by (simp_all add: newNode_def)

lemma andThen_weak_cong: "r = r' \<Longrightarrow> andThen r f = andThen r' f"
  by simp

lemma forEach_weak_cong: "xs = xs' \<Longrightarrow> s = s' \<Longrightarrow> forEach f xs s = forEach f xs' s'"
  by simp

text \<open>With no callback parked, \<^verbatim>\<open>onNodeModified\<close> changes nothing.\<close>

lemma onNodeModified_from_idle:
  "pendingNodeCallbacks s = [] \<Longrightarrow> onNodeModified_from idx subpath ks s = s"
  by (induction ks arbitrary: idx subpath) (simp_all add: Let_def)

lemma onNodeModified_idle: "pendingNodeCallbacks s = [] \<Longrightarrow> onNodeModified path s = s"
  by (simp add: onNodeModified_def onNodeModified_from_idle)

lemma notifyValues_idle: "pendingNodeCallbacks s = [] \<Longrightarrow> notifyValues path vals s = s"
  unfolding notifyValues_def
  by (induction vals) (auto simp: onNodeModified_idle)

text \<open>
  The rewrite rules and congruences with which the scenarios are evaluated: a call is
  unfolded once its arguments are values.
\<close>

lemmas eval_cong =
  let_weak_cong option.case_cong_weak prod.case_cong_weak Result.case_cong_weak
  ChangeType.case_cong_weak Modification.case_cong_weak list.case_cong_weak
  andThen_weak_cong forEach_weak_cong

lemmas eval_defs =
  applyModification_def newTreeDatabase_def TreeStorage_setValues_def resolveNode_def
  TreeStorage_setValue_def updateValues_def removeValue_def removeDirectChild_def
  TreeDatabaseRef_setValues_def TreeDatabaseRef_setValue_def TreeDatabaseRef_update_def
  TreeDatabaseRef_remove_def getNode_def resolveDirectChild_def getDirectChild_def newNode_def
  modify_def markChildAsChanged_def removeAllChildren_def writeValues_def setValue_def
  setValueInternal_def onNodeModified_idle notifyValues_idle triggerRecordChangeNotifications_def
  fireChildrenNotifications_def fireSelfNotifications_def publish_def blankNode_def
  disconnect_def clone_def isEqual_def resetRecordedChanges_def resetChangedNodes_def Let_def

subsection \<open>The ledger merge\<close>

lemma markChildAsChanged_fuel_above:
  "markChildAsChanged_fuel n this k t s = Ok x s' \<Longrightarrow> parentsBelow s \<Longrightarrow> this < b
   \<Longrightarrow> heap s' b = heap s b"
proof (induction n arbitrary: this k t s)
  case 0
  then show ?case by simp
next
  case (Suc n)
  show ?case
  proof (cases "map_of (changedNodes (heap s this)) k")
    case None
    let ?s1 = "modify this (\<lambda>me. me\<lparr>changedNodes := AList.update k t (changedNodes me)\<rparr>) s"
    have pb: "parentsBelow ?s1"
      using Suc.prems(2) by (auto simp: parentsBelow_def modify_def)
    have eq1: "heap ?s1 b = heap s b"
      using Suc.prems(3) by (simp add: modify_def)
    show ?thesis
    proof (cases "parent (heap s this)")
      case noParent: None
      with None Suc.prems show ?thesis
        by (auto simp: modify_def split: if_splits)
    next
      case (Some p)
      then have "p < this"
        using Suc.prems(2) by (auto simp: parentsBelow_def)
      then have pb': "p < b"
        using Suc.prems(3) by simp
      show ?thesis
      proof (cases "length (changedNodes (heap ?s1 this)) = 1")
        case True
        with None Some Suc.prems(1)
        have "markChildAsChanged_fuel n p (key (heap ?s1 this)) Changed ?s1 = Ok x s'"
          by (auto simp: modify_def Let_def split: if_splits)
        from Suc.IH[OF this pb pb'] eq1 show ?thesis by simp
      next
        case False
        with None Some Suc.prems(1) have "s' = ?s1"
          by (auto simp: modify_def Let_def split: if_splits)
        with eq1 show ?thesis by simp
      qed
    qed
  next
    case (Some cur)
    with Suc.prems show ?thesis
      by (auto simp: modify_def split: if_splits)
  qed
qed

lemma markChildAsChanged_fuel_entry:
  assumes "markChildAsChanged_fuel n this k t s = Ok x s'" and "parentsBelow s"
  shows "changedNodes (heap s' this) =
     (case map_of (changedNodes (heap s this)) k of
        None \<Rightarrow> AList.update k t (changedNodes (heap s this))
      | Some cur \<Rightarrow>
          if cur = Added \<and> t = Removed then AList.delete k (changedNodes (heap s this))
          else if cur = Removed \<and> t = Added then AList.update k Changed (changedNodes (heap s this))
          else if cur = Added \<and> t = Changed then AList.update k Added (changedNodes (heap s this))
          else if cur = Changed \<and> t = Changed then changedNodes (heap s this)
          else AList.update k t (changedNodes (heap s this)))"
proof (cases n)
  case 0
  with assms show ?thesis by simp
next
  case (Suc m)
  show ?thesis
  proof (cases "map_of (changedNodes (heap s this)) k")
    case None
    let ?s1 = "modify this (\<lambda>me. me\<lparr>changedNodes := AList.update k t (changedNodes me)\<rparr>) s"
    have pb: "parentsBelow ?s1"
      using assms(2) by (auto simp: parentsBelow_def modify_def)
    have eq1: "changedNodes (heap ?s1 this) = AList.update k t (changedNodes (heap s this))"
      by (simp add: modify_def)
    show ?thesis
    proof (cases "parent (heap s this)")
      case noParent: None
      with None Suc assms show ?thesis
        by (auto simp: modify_def split: if_splits)
    next
      case (Some p)
      then have lt: "p < this"
        using assms(2) by (auto simp: parentsBelow_def)
      show ?thesis
      proof (cases "length (changedNodes (heap ?s1 this)) = 1")
        case True
        with None Some Suc assms(1)
        have "markChildAsChanged_fuel m p (key (heap ?s1 this)) Changed ?s1 = Ok x s'"
          by (auto simp: modify_def Let_def split: if_splits)
        from markChildAsChanged_fuel_above[OF this pb lt] eq1 None show ?thesis by simp
      next
        case False
        with None Some Suc assms(1) have "s' = ?s1"
          by (auto simp: modify_def Let_def split: if_splits)
        with eq1 None show ?thesis by simp
      qed
    qed
  next
    case (Some cur)
    with Suc assms show ?thesis
      by (auto simp: modify_def split: if_splits)
  qed
qed

lemma parentsBelow_ledgerStore: "parentsBelow (ledgerStore l)"
  by (simp add: parentsBelow_def ledgerStore_def blankNode_def)

text \<open>
  C2, as the code has it. A call of \<^verbatim>\<open>markChildAsChanged(key, N)\<close> that returns was
  made for a key of the children Map, and the entry \<open>E'\<close> it leaves for the key is
  determined by the entry \<open>E\<close> it found and by \<open>N\<close>: with no entry, \<open>N\<close> is stored;
  Added then Removed deletes the entry; Removed then Added gives Changed; Added then
  Changed and Added then Added give Added; Changed then Changed gives Changed; Changed
  then Removed and Removed then Removed give Removed. In the two remaining cells the
  incoming type overwrites the entry: Changed then Added gives Added, and Removed then
  Changed gives Changed.
\<close>

theorem markChildAsChanged_merge_table:
  assumes ret: "markChildAsChanged this k N s = Ok () s'"
      and pb: "parentsBelow s"
  shows "map_of (children (heap s this)) k \<noteq> None \<and>
    (let E = map_of (changedNodes (heap s this)) k;
         E' = map_of (changedNodes (heap s' this)) k
     in (E = None \<longrightarrow> E' = Some N) \<and>
        (E = Some Added \<and> N = Added \<longrightarrow> E' = Some Added) \<and>
        (E = Some Added \<and> N = Changed \<longrightarrow> E' = Some Added) \<and>
        (E = Some Added \<and> N = Removed \<longrightarrow> E' = None) \<and>
        (E = Some Changed \<and> N = Added \<longrightarrow> E' = Some Added) \<and>
        (E = Some Changed \<and> N = Changed \<longrightarrow> E' = Some Changed) \<and>
        (E = Some Changed \<and> N = Removed \<longrightarrow> E' = Some Removed) \<and>
        (E = Some Removed \<and> N = Added \<longrightarrow> E' = Some Changed) \<and>
        (E = Some Removed \<and> N = Changed \<longrightarrow> E' = Some Changed) \<and>
        (E = Some Removed \<and> N = Removed \<longrightarrow> E' = Some Removed))"
proof -
  from ret have r: "markChildAsChanged_fuel (nextAddr s) this k N s = Ok () s'"
    by (simp add: markChildAsChanged_def)
  have live: "map_of (children (heap s this)) k \<noteq> None"
    using r by (cases "nextAddr s") (auto split: if_splits)
  note e = markChildAsChanged_fuel_entry[OF r pb]
  show ?thesis
    using live e
    by (auto simp: Let_def update_conv' delete_conv' split: option.splits if_splits)
qed

lemma markChildAsChanged_ledgerStore:
  "markChildAsChanged 0 ''a'' Changed (ledgerStore [(''a'', Added)]) = Ok () (ledgerStore [(''a'', Added)])"
  by (simp add: markChildAsChanged_def ledgerStore_def modify_def blankNode_def)

theorem markChildAsChanged_merge_table_witness:
  "markChildAsChanged 0 ''a'' Changed (ledgerStore [(''a'', Added)]) = Ok () (ledgerStore [(''a'', Added)])
   \<and> parentsBelow (ledgerStore [(''a'', Added)])
   \<and> map_of (changedNodes (heap (ledgerStore [(''a'', Added)]) 0)) ''a'' = Some Added"
  using markChildAsChanged_merge_table[OF markChildAsChanged_ledgerStore parentsBelow_ledgerStore]
    markChildAsChanged_ledgerStore parentsBelow_ledgerStore
  by (simp add: ledgerStore_def Let_def)

text \<open>
  C2 as stated fails in two cells of the table: on an entry Changed an incoming Added
  leaves Added (the claim: Changed), and on an entry Removed an incoming Changed leaves
  Changed (the claim: Removed).
\<close>

theorem markChildAsChanged_merge_table_counterexample:
  "(case markChildAsChanged 0 ''a'' Added (ledgerStore [(''a'', Changed)]) of
      Ok x s' \<Rightarrow> map_of (changedNodes (heap s' 0)) ''a'' | _ \<Rightarrow> None) = Some Added
   \<and> (case markChildAsChanged 0 ''a'' Changed (ledgerStore [(''a'', Removed)]) of
      Ok x s' \<Rightarrow> map_of (changedNodes (heap s' 0)) ''a'' | _ \<Rightarrow> None) = Some Changed"
  by (simp add: markChildAsChanged_def ledgerStore_def modify_def blankNode_def)

subsection \<open>Values and children\<close>

text \<open>
  C1 at the falsy values. \<^verbatim>\<open>setValueInternal\<close> removes the children under
  \<^verbatim>\<open>if (newValue)\<close>, and \<^verbatim>\<open>resolveChild\<close> clears the value under
  \<^verbatim>\<open>if (this.value)\<close>: for \<^verbatim>\<open>false\<close>, \<^verbatim>\<open>0\<close> and \<^verbatim>\<open>''\<close> neither happens. After
  \<^verbatim>\<open>ref('a').setValues({x: 1})\<close> and \<^verbatim>\<open>ref('a').setValue(v)\<close> the node at \<open>a\<close>
  holds the value \<open>v\<close> and still the child \<open>x\<close>; after \<^verbatim>\<open>ref('a').setValue(v)\<close> and
  \<^verbatim>\<open>ref('a/b').setValue(1)\<close> it holds the child \<open>b\<close> and still the value \<open>v\<close>.
\<close>

theorem falsy_value_keeps_children:
  "nodeAt ''a'' (valueOverChildren (PBool False)) =
     Some \<lparr>parent = Some 0, key = ''a'', val = Some (PBool False),
            children = [(''x'', 2)], changedNodes = []\<rparr>
   \<and> nodeAt ''a'' (valueOverChildren (PNumber 0)) =
     Some \<lparr>parent = Some 0, key = ''a'', val = Some (PNumber 0),
            children = [(''x'', 2)], changedNodes = []\<rparr>
   \<and> nodeAt ''a'' (valueOverChildren (PString [])) =
     Some \<lparr>parent = Some 0, key = ''a'', val = Some (PString []),
            children = [(''x'', 2)], changedNodes = []\<rparr>
   \<and> nodeAt ''a'' (childUnderValue (PBool False)) =
     Some \<lparr>parent = Some 0, key = ''a'', val = Some (PBool False),
            children = [(''b'', 2)], changedNodes = []\<rparr>
   \<and> nodeAt ''a'' (childUnderValue (PNumber 0)) =
     Some \<lparr>parent = Some 0, key = ''a'', val = Some (PNumber 0),
            children = [(''b'', 2)], changedNodes = []\<rparr>
   \<and> nodeAt ''a'' (childUnderValue (PString [])) =
     Some \<lparr>parent = Some 0, key = ''a'', val = Some (PString []),
            children = [(''b'', 2)], changedNodes = []\<rparr>"
  by (simp add: nodeAt_def valueOverChildren_def childUnderValue_def eval_defs cong: eval_cong)

subsection \<open>Echoes through the sink\<close>

text \<open>
  C4 as stated fails: the flush of a Remote \<^verbatim>\<open>SetValues('a', {x: 1})\<close> that repeats a
  Local one is not suppressed. The first write publishes five events; the second
  completes the publisher of the replaced child and publishes five more.
\<close>

theorem echo_remote_counterexample:
  "emittedOf (echo Remote) =
     [(0, Next (NodeEvent ChildAdded 1)), (1, Next (NodeEvent ChildAdded 2)),
      (2, Next (NodeEvent ValueChanged 2)), (1, Next (NodeEvent ValueChanged 1)),
      (0, Next (NodeEvent ValueChanged 0)),
      (2, Complete),
      (0, Next (NodeEvent ChildChanged 1)), (1, Next (NodeEvent ChildChanged 3)),
      (3, Next (NodeEvent ValueChanged 3)), (1, Next (NodeEvent ValueChanged 1)),
      (0, Next (NodeEvent ValueChanged 0))]"
  by (simp add: emittedOf_def echo_def localWrite_def eval_defs numeral_2_eq_2 numeral_3_eq_3
      cong: eval_cong)

text \<open>
  C4, as the code has it. The Local write finds no node at \<open>a\<close> and its flush fires
  (five events). Repeated under the tag Remote, the write is flushed again and a second
  burst is published: two flushes. Repeated under the tag Local, the write is found
  equal to the clone taken before it and the ledgers are reset: no event is published
  for it, one flush in total. All three sequences return. The repeated Local write
  is the storage operation followed by \<^verbatim>\<open>resetRecordedChanges\<close>: the operation
  leaves the entry \<open>a\<close> Changed in the root's ledger and \<open>x\<close> Changed in the ledger
  of \<open>a\<close>, the reset leaves every ledger empty, and the flush in its place would have
  published the second burst.
\<close>

theorem echo_suppressed_only_for_local:
  "emittedOf localWrite =
     [(0, Next (NodeEvent ChildAdded 1)), (1, Next (NodeEvent ChildAdded 2)),
      (2, Next (NodeEvent ValueChanged 2)), (1, Next (NodeEvent ValueChanged 1)),
      (0, Next (NodeEvent ValueChanged 0))]
   \<and> emittedOf (echo Remote) = emittedOf localWrite @
     [(2, Complete),
      (0, Next (NodeEvent ChildChanged 1)), (1, Next (NodeEvent ChildChanged 3)),
      (3, Next (NodeEvent ValueChanged 3)), (1, Next (NodeEvent ValueChanged 1)),
      (0, Next (NodeEvent ValueChanged 0))]
   \<and> emittedOf (echo Local) = emittedOf localWrite @ [(2, Complete)]
   \<and> ledgersOf localWrite = Some [[], [], []]
   \<and> ledgersOf (echo Remote) = Some [[], [], [], []]
   \<and> echo Local = andThen echoApplied (\<lambda>_. resetRecordedChanges)
   \<and> ledgersOf echoApplied = Some [[(''a'', Changed)], [(''x'', Changed)], [], [], [], []]
   \<and> ledgersOf (echo Local) = Some [[], [], [], [], [], []]
   \<and> emittedOf (andThen echoApplied (\<lambda>_. triggerRecordChangeNotifications)) =
       emittedOf localWrite @
       [(2, Complete),
        (0, Next (NodeEvent ChildChanged 1)), (1, Next (NodeEvent ChildChanged 5)),
        (5, Next (NodeEvent ValueChanged 5)), (1, Next (NodeEvent ValueChanged 1)),
        (0, Next (NodeEvent ValueChanged 0))]"
  by (simp add: emittedOf_def ledgersOf_def echo_def echoApplied_def localWrite_def eval_defs
      numeral_2_eq_2 numeral_3_eq_3 eval_nat_numeral upt_rec cong: eval_cong)

subsection \<open>Read-only databases\<close>

text \<open>
  C7. On a read-only database each of the four write operations of a reference throws
  at once, and the database it leaves is the one it was called on: the nodes, the
  ledgers, the published events and the stream of local modifications are as before.
\<close>

theorem readonly_write_fails:
  assumes "readonly db"
  shows "TreeDatabaseRef_setValue path v db = Threw ReadonlyDatabase db
       \<and> TreeDatabaseRef_setValues path vals db = Threw ReadonlyDatabase db
       \<and> TreeDatabaseRef_update path vals db = Threw ReadonlyDatabase db
       \<and> TreeDatabaseRef_remove path db = Threw ReadonlyDatabase db"
  using assms
  by (simp add: TreeDatabaseRef_setValue_def TreeDatabaseRef_setValues_def
      TreeDatabaseRef_update_def TreeDatabaseRef_remove_def)

theorem readonly_write_fails_witness:
  "readonly (newTreeDatabase True)
   \<and> TreeDatabaseRef_setValue ''a'' (PNumber 1) (newTreeDatabase True)
       = Threw ReadonlyDatabase (newTreeDatabase True)
   \<and> TreeDatabaseRef_setValues ''a'' [(''x'', PNumber 1)] (newTreeDatabase True)
       = Threw ReadonlyDatabase (newTreeDatabase True)
   \<and> TreeDatabaseRef_update ''a'' [(''x'', PNumber 1)] (newTreeDatabase True)
       = Threw ReadonlyDatabase (newTreeDatabase True)
   \<and> TreeDatabaseRef_remove ''a'' (newTreeDatabase True)
       = Threw ReadonlyDatabase (newTreeDatabase True)"
proof -
  have ro: "readonly (newTreeDatabase True)"
    by (simp add: newTreeDatabase_def)
  from readonly_write_fails[OF ro] ro show ?thesis by simp
qed

subsection \<open>getValue\<close>

text \<open>
  C9 on the code. When the stream signals an error, the observer of \<^verbatim>\<open>getValue()\<close>
  leaves the promise as it was: it is not rejected.
\<close>

theorem getValue_error_leaves_promise_unsettled:
  "getValue_observer (OnError e) Unsettled = Unsettled
   \<and> getValue_observer (OnError e) Unsettled \<noteq> reject e Unsettled"
  by (simp add: reject_def)

subsection \<open>The sink and the read-only flag\<close>

lemma andThen_mapState:
  assumes "\<And>x s. k x (g s) = mapState g (k' x s)"
  shows "andThen (mapState g r) k = mapState g (andThen r k')"
  using assms by (cases r) simp_all

lemma forEach_mapState:
  assumes "\<And>x s. x \<in> set xs \<Longrightarrow> f x (g s) = mapState g (f x s)"
  shows "forEach f xs (g s) = mapState g (forEach f xs s)"
  using assms
proof (induction xs arbitrary: s)
  case Nil
  then show ?case by simp
next
  case (Cons x xs)
  have "forEach f (x # xs) (g s) = andThen (mapState g (f x s)) (\<lambda>_. forEach f xs)"
    using Cons.prems by simp
  also have "\<dots> = mapState g (andThen (f x s) (\<lambda>_. forEach f xs))"
    by (rule andThen_mapState) (simp add: Cons)
  finally show ?case by simp
qed

lemma ro_basic [simp]:
  "modify a f (setReadonly b s) = setReadonly b (modify a f s)"
  "publish a n (setReadonly b s) = setReadonly b (publish a n s)"
  "newNode p k (setReadonly b s) = (fst (newNode p k s), setReadonly b (snd (newNode p k s)))"
  "getDirectChild a k (setReadonly b s) = getDirectChild a k s"
  "fireSelfNotifications a (setReadonly b s) = setReadonly b (fireSelfNotifications a s)"
  by (simp_all add: modify_def publish_def newNode_def getDirectChild_def fireSelfNotifications_def)

lemma getChild_ro [simp]: "getChild a path (setReadonly b s) = getChild a path s"
  by (induction path arbitrary: a) (auto split: option.splits)

lemma markChildAsChanged_fuel_ro:
  "markChildAsChanged_fuel n this k t (setReadonly b s) = mapState (setReadonly b) (markChildAsChanged_fuel n this k t s)"
  by (induction n arbitrary: this k t s) (auto simp: Let_def split: option.splits)

lemma markChildAsChanged_ro [simp]:
  "markChildAsChanged this k t (setReadonly b s) = mapState (setReadonly b) (markChildAsChanged this k t s)"
  by (simp add: markChildAsChanged_def markChildAsChanged_fuel_ro)

lemma disconnect_fuel_ro:
  "disconnect_fuel n this (setReadonly b s) = mapState (setReadonly b) (disconnect_fuel n this s)"
proof (induction n arbitrary: this s)
  case 0
  then show ?case by simp
next
  case (Suc n)
  have "forEach (\<lambda>(k, node). disconnect_fuel n node) (children (heap s this)) (setReadonly b s)
      = mapState (setReadonly b) (forEach (\<lambda>(k, node). disconnect_fuel n node) (children (heap s this)) s)"
    by (rule forEach_mapState) (auto simp: Suc)
  then show ?case by (simp add: andThen_mapState)
qed

lemma disconnect_ro [simp]:
  "disconnect this (setReadonly b s) = mapState (setReadonly b) (disconnect this s)"
  by (simp add: disconnect_def disconnect_fuel_ro)

lemma removeAllChildren_ro [simp]:
  "removeAllChildren this (setReadonly b s) = mapState (setReadonly b) (removeAllChildren this s)"
proof -
  have "forEach (\<lambda>(k, node) s1. andThen (markChildAsChanged this k Removed s1) (\<lambda>_. disconnect node))
          (children (heap s this)) (setReadonly b s)
      = mapState (setReadonly b) (forEach (\<lambda>(k, node) s1. andThen (markChildAsChanged this k Removed s1) (\<lambda>_. disconnect node))
          (children (heap s this)) s)"
    by (rule forEach_mapState) (auto simp: andThen_mapState)
  then show ?thesis by (simp add: removeAllChildren_def andThen_mapState)
qed

lemma setValueInternal_ro [simp]:
  "setValueInternal this v (setReadonly b s) = mapState (setReadonly b) (setValueInternal this v s)"
  by (simp add: setValueInternal_def andThen_mapState)

lemma setValue_ro [simp]:
  "setValue this v (setReadonly b s) = mapState (setReadonly b) (setValue this v s)"
  by (auto simp: setValue_def andThen_mapState split: option.splits intro!: andThen_mapState)


lemma newNode_ro: "newNode p k (setReadonly b s) = (nextAddr s, setReadonly b (snd (newNode p k s)))"
  by (simp add: newNode_def)

lemma resolveDirectChild_ro [simp]:
  "resolveDirectChild this k (setReadonly b s) = mapState (setReadonly b) (resolveDirectChild this k s)"
  by (auto simp: resolveDirectChild_def newNode_ro andThen_mapState Let_def split_def
      simp del: ro_basic(3) split: option.splits)

lemma resolveChild_ro [simp]:
  "resolveChild this path (setReadonly b s) = mapState (setReadonly b) (resolveChild this path s)"
proof (induction path arbitrary: this s)
  case Nil
  then show ?case by simp
next
  case (Cons k path)
  show ?case
    by (auto simp: Cons andThen_mapState intro!: andThen_mapState)
qed

lemma removeDirectChild_ro [simp]:
  "removeDirectChild this k (setReadonly b s) = mapState (setReadonly b) (removeDirectChild this k s)"
  by (auto simp: removeDirectChild_def andThen_mapState split: option.splits intro!: andThen_mapState)

lemma resetChangedNodes_fuel_ro:
  "resetChangedNodes_fuel n this (setReadonly b s) = mapState (setReadonly b) (resetChangedNodes_fuel n this s)"
proof (induction n arbitrary: this s)
  case 0
  then show ?case by simp
next
  case (Suc n)
  let ?f = "\<lambda>(k, t) s1.
           if t \<noteq> Removed then
             (case getDirectChild this k s1 of
                None \<Rightarrow> Threw (ChildDoesNotExist k (key (heap s1 this))) s1
              | Some node \<Rightarrow> resetChangedNodes_fuel n node s1)
           else Ok () s1"
  have "forEach ?f (changedNodes (heap s this)) (setReadonly b s)
      = mapState (setReadonly b) (forEach ?f (changedNodes (heap s this)) s)"
    by (rule forEach_mapState) (auto simp: Suc split: option.splits)
  then show ?case by (simp add: andThen_mapState)
qed

lemma resetChangedNodes_ro [simp]:
  "resetChangedNodes this (setReadonly b s) = mapState (setReadonly b) (resetChangedNodes this s)"
  by (simp add: resetChangedNodes_def resetChangedNodes_fuel_ro)

lemma fireChildrenNotifications_fuel_ro:
  "fireChildrenNotifications_fuel n this (setReadonly b s)
     = mapState (setReadonly b) (fireChildrenNotifications_fuel n this s)"
proof (induction n arbitrary: this s)
  case 0
  then show ?case by simp
next
  case (Suc n)
  let ?f = "\<lambda>(k, t) s1.
           case t of
             Removed \<Rightarrow>
               (let (node, s2) = newNode None k s1
                in Ok () (publish this (Next (NodeEvent ChildRemoved node)) s2))
           | Added \<Rightarrow>
               (case getDirectChild this k s1 of
                  None \<Rightarrow> Threw (ChildDoesNotExist k (key (heap s1 this))) s1
                | Some node \<Rightarrow>
                    andThen (fireChildrenNotifications_fuel n node
                               (publish this (Next (NodeEvent ChildAdded node)) s1))
                      (\<lambda>_ s2. Ok () (fireSelfNotifications node s2)))
           | Changed \<Rightarrow>
               (case getDirectChild this k s1 of
                  None \<Rightarrow> Threw (ChildDoesNotExist k (key (heap s1 this))) s1
                | Some node \<Rightarrow>
                    andThen (fireChildrenNotifications_fuel n node
                               (publish this (Next (NodeEvent ChildChanged node)) s1))
                      (\<lambda>_ s2. Ok () (fireSelfNotifications node s2)))"
  have "forEach ?f (changedNodes (heap s this)) (setReadonly b s)
      = mapState (setReadonly b) (forEach ?f (changedNodes (heap s this)) s)"
    by (rule forEach_mapState)
      (auto simp: Suc newNode_ro andThen_mapState split_def Let_def simp del: ro_basic(3)
        split: option.splits ChangeType.splits)
  then show ?case by (simp add: andThen_mapState Let_def)
qed

lemma fireChildrenNotifications_ro [simp]:
  "fireChildrenNotifications this (setReadonly b s)
     = mapState (setReadonly b) (fireChildrenNotifications this s)"
  by (simp add: fireChildrenNotifications_def fireChildrenNotifications_fuel_ro)

lemma clone_fuel_ro:
  "clone_fuel n this p (setReadonly b s) = mapState (setReadonly b) (clone_fuel n this p s)"
proof (induction n arbitrary: this p s)
  case 0
  then show ?case by simp
next
  case (Suc n)
  define F :: "addr \<Rightarrow> string \<times> addr \<Rightarrow> TreeDatabase \<Rightarrow> (unit, TreeDatabase) Result"
    where "F = (\<lambda>res (k, node) s3.
                  andThen (clone_fuel n node (Some res) s3)
                    (\<lambda>c s4. Ok () (modify res (\<lambda>me. me\<lparr>children := AList.update k c (children me)\<rparr>) s4)))"
  have F: "F res x (setReadonly b s3) = mapState (setReadonly b) (F res x s3)" for res x s3
    by (cases x) (auto simp: F_def Suc intro!: andThen_mapState)
  have loop: "forEach (F res) cs (setReadonly b s2) = mapState (setReadonly b) (forEach (F res) cs s2)"
    for res cs s2
    by (rule forEach_mapState) (rule F)
  have unf: "clone_fuel (Suc n) this p s =
     (let (res, s1) = newNode p (key (heap s this)) s
      in andThen (setValueInternal res (val (heap s1 this)) s1)
           (\<lambda>_ s2. andThen (forEach (F res) (children (heap s2 this)) s2) (\<lambda>_. Ok res)))" for s :: TreeDatabase
    by (simp add: F_def)
  show ?case
    unfolding unf
    by (auto simp: newNode_ro split_def Let_def loop simp del: ro_basic(3) intro!: andThen_mapState)
qed

lemma clone_ro [simp]:
  "clone this p (setReadonly b s) = mapState (setReadonly b) (clone this p s)"
  by (simp add: clone_def clone_fuel_ro)

lemma isEqual_fuel_ro:
  "isEqual_fuel n this other (setReadonly b s) = isEqual_fuel n this other s"
proof (induction n arbitrary: this other)
  case 0
  then show ?case by simp
next
  case (Suc n)
  show ?case by (simp add: Suc cong: if_cong option.case_cong)
qed

lemma isEqual_ro [simp]:
  "isEqual this other (setReadonly b s) = isEqual this other s"
  by (simp add: isEqual_def isEqual_fuel_ro)

lemma storage_sel_ro [simp]:
  "getNode path (setReadonly b s) = getNode path s"
  "resolveNode path (setReadonly b s) = mapState (setReadonly b) (resolveNode path s)"
  "resolvePromise node cb (setReadonly b s) = setReadonly b (resolvePromise node cb s)"
  by (simp_all add: getNode_def resolveNode_def resolvePromise_def)

lemma fold_resolvePromise_ro:
  "fold (resolvePromise node) cbs (setReadonly b s) = setReadonly b (fold (resolvePromise node) cbs s)"
  by (induction cbs arbitrary: s) simp_all

lemma pending_fold_resolvePromise [simp]:
  "pendingNodeCallbacks (fold (resolvePromise node) cbs s) = pendingNodeCallbacks s"
  by (induction cbs arbitrary: s) (simp_all add: resolvePromise_def)

lemma onNodeModified_from_ro:
  "onNodeModified_from idx subpath ks (setReadonly b s) = setReadonly b (onNodeModified_from idx subpath ks s)"
proof (induction ks arbitrary: idx subpath s)
  case Nil
  then show ?case by simp
next
  case (Cons k ks)
  have IH': "onNodeModified_from i sp ks ((setReadonly b X)\<lparr>pendingNodeCallbacks := P\<rparr>)
      = setReadonly b (onNodeModified_from i sp ks (X\<lparr>pendingNodeCallbacks := P\<rparr>))" for i sp X P
  proof -
    have eq: "(setReadonly b X)\<lparr>pendingNodeCallbacks := P\<rparr> = setReadonly b (X\<lparr>pendingNodeCallbacks := P\<rparr>)"
      by (cases X) simp
    show ?thesis
      unfolding eq by (rule Cons.IH)
  qed
  show ?case
    by (simp add: Let_def fold_resolvePromise_ro Cons.IH IH' split: option.splits)
qed

lemma onNodeModified_ro [simp]:
  "onNodeModified path (setReadonly b s) = setReadonly b (onNodeModified path s)"
  by (simp add: onNodeModified_def onNodeModified_from_ro)

lemma TreeStorage_setValue_ro [simp]:
  "TreeStorage_setValue path v (setReadonly b s) = mapState (setReadonly b) (TreeStorage_setValue path v s)"
  by (auto simp: TreeStorage_setValue_def intro!: andThen_mapState)

lemma writeValues_ro [simp]:
  "writeValues node vals (setReadonly b s) = mapState (setReadonly b) (writeValues node vals s)"
  unfolding writeValues_def
  by (rule forEach_mapState) (auto intro!: andThen_mapState)

lemma notifyValues_ro [simp]:
  "notifyValues path vals (setReadonly b s) = setReadonly b (notifyValues path vals s)"
  unfolding notifyValues_def
  by (induction vals arbitrary: s) auto

lemma TreeStorage_setValues_ro [simp]:
  "TreeStorage_setValues path vals (setReadonly b s)
     = mapState (setReadonly b) (TreeStorage_setValues path vals s)"
  by (auto simp: TreeStorage_setValues_def intro!: andThen_mapState)

lemma updateValues_ro [simp]:
  "updateValues path vals (setReadonly b s) = mapState (setReadonly b) (updateValues path vals s)"
  by (auto simp: updateValues_def intro!: andThen_mapState)

lemma removeValue_ro [simp]:
  "removeValue path (setReadonly b s) = mapState (setReadonly b) (removeValue path s)"
  by (auto simp: removeValue_def Let_def split: option.splits)

lemma flush_reset_ro [simp]:
  "triggerRecordChangeNotifications (setReadonly b s)
     = mapState (setReadonly b) (triggerRecordChangeNotifications s)"
  "resetRecordedChanges (setReadonly b s) = mapState (setReadonly b) (resetRecordedChanges s)"
  by (simp_all add: triggerRecordChangeNotifications_def resetRecordedChanges_def)

text \<open>
  C10. \<^verbatim>\<open>applyModification\<close> neither reads nor writes the \<^verbatim>\<open>readonly\<close> flag: run on
  a database whose flag is set to \<open>b\<close>, it does what it does on the database as it was
  (the same result, throw or failure to end, the same storage and the same flush or
  reset), and the flag is still \<open>b\<close>. With \<open>b = True\<close>: a read-only database takes every
  modification of the sink as a writable one does.
\<close>

theorem applyModification_ignores_readonly:
  "applyModification change (db\<lparr>readonly := b\<rparr>)
     = mapState (\<lambda>s. s\<lparr>readonly := b\<rparr>) (applyModification change db)"
  by (cases "modification change")
    (auto simp: applyModification_def Let_def andThen_def mapState_def
      split: Result.splits option.splits)

subsection \<open>What the sink does with a modification\<close>


subsection \<open>Subscribing\<close>





subsection \<open>The flush\<close>

lemma wellLinkedD:
  "wellLinked s \<Longrightarrow> a < nextAddr s \<Longrightarrow> (k, c) \<in> set (children (heap s a)) \<Longrightarrow>
     a < c \<and> c < nextAddr s \<and> parent (heap s c) = Some a \<and> key (heap s c) = k"
  unfolding wellLinked_def by blast

lemma descends_ge: "descends s c b \<Longrightarrow> wellLinked s \<Longrightarrow> c < nextAddr s \<Longrightarrow> c \<le> b \<and> b < nextAddr s"
proof (induction rule: descends.induct)
  case self
  then show ?case by simp
next
  case (child a k b)
  then have a: "c \<le> a" "a < nextAddr s" by simp_all
  from wellLinkedD[OF child.prems(1) a(2) child.hyps(2)] a show ?case by simp
qed


lemma descends_child:
  "descends s c' b \<Longrightarrow> (k, c') \<in> set (children (heap s c)) \<Longrightarrow> descends s c b"
proof (induction rule: descends.induct)
  case self
  show ?case by (rule descends.child[OF descends.self self])
next
  case (child a k' b)
  show ?case by (rule descends.child[OF child.IH[OF child.prems] child.hyps(2)])
qed


lemma descends_up:
  "descends s c b \<Longrightarrow> wellLinked s \<Longrightarrow> c < nextAddr s \<Longrightarrow>
     b = c \<or> (\<exists>p. parent (heap s b) = Some p \<and> p < b \<and> descends s c p)"
proof (induction rule: descends.induct)
  case self
  then show ?case by simp
next
  case (child a k b)
  have "a < nextAddr s"
    using descends_ge[OF child.hyps(1) child.prems] by simp
  from wellLinkedD[OF child.prems(1) this child.hyps(2)] child.hyps(1)
  show ?case by blast
qed


lemma siblings_disjoint:
  assumes wl: "wellLinked s" and a: "a < nextAddr s"
    and c1: "(k1, c1) \<in> set (children (heap s a))"
    and c2: "(k2, c2) \<in> set (children (heap s a))"
    and ne: "c1 \<noteq> c2"
  shows "descends s c1 b \<Longrightarrow> descends s c2 b \<Longrightarrow> False"
proof (induction b rule: less_induct)
  case (less b)
  note l1 = wellLinkedD[OF wl a c1] and l2 = wellLinkedD[OF wl a c2]
  have c1n: "c1 < nextAddr s" and c2n: "c2 < nextAddr s" using l1 l2 by simp_all
  note u1 = descends_up[OF less.prems(1) wl c1n] and u2 = descends_up[OF less.prems(2) wl c2n]
  show ?case
  proof (cases "b = c1")
    case True
    with ne have "b \<noteq> c2" by simp
    with u2 obtain p where p: "parent (heap s b) = Some p" "descends s c2 p" by blast
    from p(1) True l1 have "p = a" by simp
    with p(2) have "c2 \<le> a" using descends_ge[OF _ wl c2n] by blast
    with l2 show ?thesis by simp
  next
    case False
    with u1 obtain p where p: "parent (heap s b) = Some p" "p < b" "descends s c1 p" by blast
    show ?thesis
    proof (cases "b = c2")
      case True
      from p(1) True l2 have "p = a" by simp
      with p(3) have "c1 \<le> a" using descends_ge[OF _ wl c1n] by blast
      with l1 show ?thesis by simp
    next
      case b2: False
      with u2 obtain p' where p': "parent (heap s b) = Some p'" "descends s c2 p'" by blast
      with p(1) have "p' = p" by simp
      with p' p less.IH show ?thesis by blast
    qed
  qed
qed

lemma flushStep_refl: "flushStep s s"
  by (auto simp: flushStep_def)

lemma flushStepD:
  assumes "flushStep s s'"
  shows "nextAddr s \<le> nextAddr s'"
    and "b < nextAddr s \<Longrightarrow> heap s' b = heap s b \<or> heap s' b = (heap s b)\<lparr>changedNodes := []\<rparr>"
    and "nextAddr s \<le> b \<Longrightarrow> b < nextAddr s' \<Longrightarrow> \<exists>k. heap s' b = placeholder k"
  using assms unfolding flushStep_def by blast+

lemma flushStep_old:
  assumes "flushStep s s'" and "b < nextAddr s"
  shows "children (heap s' b) = children (heap s b)"
    and "parent (heap s' b) = parent (heap s b)"
    and "key (heap s' b) = key (heap s b)"
    and "val (heap s' b) = val (heap s b)"
    and "changedNodes (heap s' b) = changedNodes (heap s b) \<or> changedNodes (heap s' b) = []"
  using flushStepD(2)[OF assms] by auto

lemma flushStep_trans:
  assumes 1: "flushStep s s'" and 2: "flushStep s' s''"
  shows "flushStep s s''"
  unfolding flushStep_def
proof (intro conjI allI impI)
  show "nextAddr s \<le> nextAddr s''"
    using flushStepD(1)[OF 1] flushStepD(1)[OF 2] by simp
next
  fix b assume b: "b < nextAddr s"
  then have b': "b < nextAddr s'" using flushStepD(1)[OF 1] by simp
  from flushStepD(2)[OF 1 b] flushStepD(2)[OF 2 b']
  show "heap s'' b = heap s b \<or> heap s'' b = (heap s b)\<lparr>changedNodes := []\<rparr>"
    by auto
next
  fix b assume b: "nextAddr s \<le> b \<and> b < nextAddr s''"
  show "\<exists>k. heap s'' b = placeholder k"
  proof (cases "b < nextAddr s'")
    case True
    with b flushStepD(3)[OF 1, of b] obtain k where k: "heap s' b = placeholder k" by auto
    from flushStepD(2)[OF 2 True] k show ?thesis
      by (auto simp: placeholder_def)
  next
    case False
    with b flushStepD(3)[OF 2, of b] show ?thesis by auto
  qed
qed

lemma flushStep_wellLinked:
  assumes wl: "wellLinked s" and st: "flushStep s s'"
  shows "wellLinked s'"
  unfolding wellLinked_def
proof (intro allI impI)
  fix a k c
  assume a: "a < nextAddr s'" and kc: "(k, c) \<in> set (children (heap s' a))"
  show "a < c \<and> c < nextAddr s' \<and> parent (heap s' c) = Some a \<and> key (heap s' c) = k"
  proof (cases "a < nextAddr s")
    case True
    with kc flushStep_old(1)[OF st True] have kc': "(k, c) \<in> set (children (heap s a))" by simp
    note l = wellLinkedD[OF wl True kc']
    then have c: "c < nextAddr s" by simp
    from l flushStep_old(2,3)[OF st c] flushStepD(1)[OF st] show ?thesis by simp
  next
    case False
    with a flushStepD(3)[OF st, of a] obtain k' where "heap s' a = placeholder k'" by auto
    with kc show ?thesis by (simp add: placeholder_def)
  qed
qed

lemma ledgersLiveD:
  "ledgersLive s \<Longrightarrow> a < nextAddr s \<Longrightarrow> (k, t) \<in> set (changedNodes (heap s a)) \<Longrightarrow>
     distinct (map fst (changedNodes (heap s a))) \<and>
     (t \<noteq> Removed \<longrightarrow> map_of (children (heap s a)) k \<noteq> None)"
  unfolding ledgersLive_def by blast

lemma flushStep_ledgersLive:
  assumes ll: "ledgersLive s" and st: "flushStep s s'"
  shows "ledgersLive s'"
  unfolding ledgersLive_def
proof (intro allI impI)
  fix a k t
  assume a: "a < nextAddr s'" and kt: "(k, t) \<in> set (changedNodes (heap s' a))"
  show "distinct (map fst (changedNodes (heap s' a))) \<and>
        (t \<noteq> Removed \<longrightarrow> map_of (children (heap s' a)) k \<noteq> None)"
  proof (cases "a < nextAddr s")
    case True
    from flushStep_old(5)[OF st True] kt
    have same: "changedNodes (heap s' a) = changedNodes (heap s a)" by auto
    with kt have "(k, t) \<in> set (changedNodes (heap s a))" by simp
    from ledgersLiveD[OF ll True this] same flushStep_old(1)[OF st True] show ?thesis by simp
  next
    case False
    with a flushStepD(3)[OF st, of a] obtain k' where "heap s' a = placeholder k'" by auto
    with kt show ?thesis by (simp add: placeholder_def)
  qed
qed

lemma flushStep_descends:
  assumes wl: "wellLinked s" and st: "flushStep s s'" and c: "c < nextAddr s"
  shows "descends s' c b = descends s c b"
proof
  assume "descends s' c b"
  then show "descends s c b"
  proof (induction rule: descends.induct)
    case self
    show ?case by (rule descends.self)
  next
    case (child a k b)
    have a: "a < nextAddr s" using descends_ge[OF child.IH wl c] by simp
    with child.hyps(2) flushStep_old(1)[OF st a] have "(k, b) \<in> set (children (heap s a))" by simp
    then show ?case by (rule descends.child[OF child.IH])
  qed
next
  assume "descends s c b"
  then show "descends s' c b"
  proof (induction rule: descends.induct)
    case self
    show ?case by (rule descends.self)
  next
    case (child a k b)
    have a: "a < nextAddr s" using descends_ge[OF child.hyps(1) wl c] by simp
    with child.hyps(2) flushStep_old(1)[OF st a] have "(k, b) \<in> set (children (heap s' a))" by simp
    then show ?case by (rule descends.child[OF child.IH])
  qed
qed

lemma descends_heap_cong:
  assumes eq: "\<And>b. descends s c b \<Longrightarrow> heap s1 b = heap s b"
  shows "descends s1 c b = descends s c b"
proof
  assume "descends s1 c b"
  then show "descends s c b"
  proof (induction rule: descends.induct)
    case self
    show ?case by (rule descends.self)
  next
    case (child a k b)
    from child.hyps(2) eq[OF child.IH] have "(k, b) \<in> set (children (heap s a))" by simp
    then show ?case by (rule descends.child[OF child.IH])
  qed
next
  assume "descends s c b"
  then show "descends s1 c b"
  proof (induction rule: descends.induct)
    case self
    show ?case by (rule descends.self)
  next
    case (child a k b)
    from child.hyps(2) eq[OF child.hyps(1)] have "(k, b) \<in> set (children (heap s1 a))" by simp
    then show ?case by (rule descends.child[OF child.IH])
  qed
qed

lemma flushEvents_cong:
  assumes eq: "\<And>b. descends s c b \<Longrightarrow> heap s1 b = heap s b"
  shows "flushEvents n c s1 = flushEvents n c s"
  using eq
proof (induction n arbitrary: c)
  case 0
  then show ?case by simp
next
  case (Suc n)
  have me: "heap s1 c = heap s c" using Suc.prems[OF descends.self] .
  have ch: "flushEvents n c' s1 = flushEvents n c' s"
    if "map_of (children (heap s c)) k = Some c'" for k c'
  proof (rule Suc.IH)
    fix b assume "descends s c' b"
    moreover have "(k, c') \<in> set (children (heap s c))" using that by (rule map_of_SomeD)
    ultimately have "descends s c b" by (rule descends_child)
    then show "heap s1 b = heap s b" by (rule Suc.prems)
  qed
  show ?case
    by (auto simp: me getDirectChild_def ch split: ChangeType.splits option.splits
        intro!: arg_cong[where f = concat] map_cong)
qed

lemma flushEvents_fresh:
  "(a, t, Fresh x) \<in> set (flushEvents n this s) \<Longrightarrow> \<exists>k. x = placeholder k"
proof (induction n arbitrary: this a t)
  case 0
  then show ?case by simp
next
  case (Suc n)
  from Suc.prems show ?case
    apply (auto split: ChangeType.splits option.splits if_splits dest: Suc.IH)
    using ChangeType.exhaust by blast
qed


lemma flushEvents_live:
  assumes wl: "wellLinked s"
  shows "this < nextAddr s \<Longrightarrow> (a, t, Live c) \<in> set (flushEvents n this s) \<Longrightarrow> descends s this c"
proof (induction n arbitrary: this a t)
  case 0
  then show ?case by simp
next
  case (Suc n)
  have sub: "descends s this c" if "map_of (children (heap s this)) k = Some c'"
    and "(a', t', Live c) \<in> set (flushEvents n c' s)" for k c' a' t'
  proof -
    have kc: "(k, c') \<in> set (children (heap s this))" using that(1) by (rule map_of_SomeD)
    then have "c' < nextAddr s" using wellLinkedD[OF wl Suc.prems(1)] by blast
    from Suc.IH[OF this that(2)] kc show ?thesis by (rule descends_child)
  qed
  have kid: "descends s this c'" if "map_of (children (heap s this)) k = Some c'" for k c'
    by (rule descends.child[OF descends.self map_of_SomeD[OF that]])
  note sub' = sub[OF sym] and kid' = kid[OF sym]
  from Suc.prems(2) show ?case
    apply (auto simp: getDirectChild_def split: ChangeType.splits option.splits if_splits
        intro: descends.self kid sub kid' sub')
    using ChangeType.exhaust by blast
qed

lemma placeholder_stable:
  assumes "flushStep s1 s2" and "node < nextAddr s1" and "heap s1 node = placeholder k"
  shows "heap s2 node = placeholder k"
  using flushStepD(2)[OF assms(1,2)] assms(3) by (auto simp: placeholder_def)

lemma describe_stable:
  assumes st: "flushStep s1 s2"
    and d: "describe lo s1 x = Some (a, t, cr)"
    and fresh: "\<And>y. cr = Fresh y \<Longrightarrow> \<exists>k. y = placeholder k"
    and below: "carriedBelow (nextAddr s1) [x]"
  shows "describe lo s2 x = Some (a, t, cr)"
proof (cases x)
  case (Pair a' e)
  show ?thesis
  proof (cases e)
    case (Next ev)
    obtain t' node where ev: "ev = NodeEvent t' node" by (cases ev)
    from below Pair Next ev have n: "node < nextAddr s1" by (simp add: carriedBelow_def)
    show ?thesis
    proof (cases "node < lo")
      case True
      with d Pair Next ev show ?thesis by simp
    next
      case False
      with d Pair Next ev have cr: "cr = Fresh (heap s1 node)" and at: "a' = a" "t' = t" by simp_all
      from fresh[OF cr] obtain k where "heap s1 node = placeholder k" by blast
      from placeholder_stable[OF st n this] this cr at False Pair Next ev show ?thesis by simp
    qed
  next
    case Complete
    with d Pair show ?thesis by simp
  qed
qed

lemma map_describe_stable:
  assumes st: "flushStep s1 s2"
    and fresh: "\<And>a t y. (a, t, Fresh y) \<in> set evs \<Longrightarrow> \<exists>k. y = placeholder k"
  shows "map (describe lo s1) new = map Some evs \<Longrightarrow> carriedBelow (nextAddr s1) new
     \<Longrightarrow> map (describe lo s2) new = map Some evs"
  using fresh
proof (induction new arbitrary: evs)
  case Nil
  then show ?case by simp
next
  case (Cons x new)
  from Cons.prems(1) obtain e evs' where evs: "evs = e # evs'"
    and hd: "describe lo s1 x = Some e" and tl: "map (describe lo s1) new = map Some evs'"
    by (cases evs) auto
  obtain a t cr where e: "e = (a, t, cr)" by (cases e)
  have b1: "carriedBelow (nextAddr s1) [x]" and b2: "carriedBelow (nextAddr s1) new"
    using Cons.prems(2) by (auto simp: carriedBelow_def)
  have "describe lo s2 x = Some (a, t, cr)"
  proof (rule describe_stable[OF st _ _ b1])
    show "describe lo s1 x = Some (a, t, cr)" using hd e by simp
    show "\<exists>k. y = placeholder k" if "cr = Fresh y" for y
      using Cons.prems(3)[of a t y] that evs e by simp
  qed
  moreover have "map (describe lo s2) new = map Some evs'"
    by (rule Cons.IH[OF tl b2]) (use Cons.prems(3) evs in auto)
  ultimately show ?case using evs e by simp
qed


lemma describe_heap_cong: "heap s1 = heap s2 \<Longrightarrow> describe lo s1 x = describe lo s2 x"
  by (cases "(lo, s1, x)" rule: describe.cases) simp_all

lemma descends_same_heap: "heap s1 = heap s2 \<Longrightarrow> descends s1 c b = descends s2 c b"
  by (rule descends_heap_cong) simp

lemma flushStep_same_heap: "heap s1 = heap s \<Longrightarrow> nextAddr s1 = nextAddr s \<Longrightarrow> flushStep s s1"
  by (auto simp: flushStep_def)

lemma flushStep_clear: "a < nextAddr s \<Longrightarrow> flushStep s (modify a (\<lambda>me. me\<lparr>changedNodes := []\<rparr>) s)"
  by (auto simp: flushStep_def)

lemma flushStep_newNode:
  "flushStep s (publish a e (snd (newNode None k s)))"
  by (auto simp: flushStep_def placeholder_def)

lemma fireChildrenNotifications_fuel_flushed:
  fixes s :: "'s Store_scheme"
  shows "wellLinked s \<Longrightarrow> ledgersLive s \<Longrightarrow> this < nextAddr s \<Longrightarrow> lo \<le> n + this
    \<Longrightarrow> lo \<le> nextAddr s \<Longrightarrow> (\<And>b. descends s this b \<Longrightarrow> b < lo)
    \<Longrightarrow> \<exists>s'. fireChildrenNotifications_fuel n this s = Ok () s' \<and> flushed lo n this s s'
           \<and> changedNodes (heap s' this) = []"
proof (induction n arbitrary: this s)
  case 0
  have "this < lo" using "0.prems"(6)[OF descends.self] .
  with "0.prems"(4) show ?case by simp
next
  case (Suc n)
  note wl = Suc.prems(1) and ll = Suc.prems(2) and thisn = Suc.prems(3) and fuel = Suc.prems(4)
    and lo = Suc.prems(5) and below = Suc.prems(6)
  define L where "L = changedNodes (heap s this)"
  define F :: "string \<times> ChangeType \<Rightarrow> 's Store_scheme \<Rightarrow> (unit, 's Store_scheme) Result"
    where "F = (\<lambda>(k, t) s1.
           case t of
             Removed \<Rightarrow>
               (let (node, s2) = newNode None k s1
                in Ok () (publish this (Next (NodeEvent ChildRemoved node)) s2))
           | Added \<Rightarrow>
               (case getDirectChild this k s1 of
                  None \<Rightarrow> Threw (ChildDoesNotExist k (key (heap s1 this))) s1
                | Some node \<Rightarrow>
                    andThen (fireChildrenNotifications_fuel n node
                               (publish this (Next (NodeEvent ChildAdded node)) s1))
                      (\<lambda>_ s2. Ok () (fireSelfNotifications node s2)))
           | Changed \<Rightarrow>
               (case getDirectChild this k s1 of
                  None \<Rightarrow> Threw (ChildDoesNotExist k (key (heap s1 this))) s1
                | Some node \<Rightarrow>
                    andThen (fireChildrenNotifications_fuel n node
                               (publish this (Next (NodeEvent ChildChanged node)) s1))
                      (\<lambda>_ s2. Ok () (fireSelfNotifications node s2))))"
  define E :: "string \<times> ChangeType \<Rightarrow> (addr \<times> TreeDataEventType \<times> Carried) list"
    where "E = (\<lambda>(k, t).
        case t of
          Removed \<Rightarrow> [(this, ChildRemoved, Fresh (placeholder k))]
        | Added \<Rightarrow>
            (case getDirectChild this k s of
               None \<Rightarrow> []
             | Some c \<Rightarrow> (this, ChildAdded, Live c) # flushEvents n c s @ [(c, ValueChanged, Live c)])
        | Changed \<Rightarrow>
            (case getDirectChild this k s of
               None \<Rightarrow> []
             | Some c \<Rightarrow> (this, ChildChanged, Live c) # flushEvents n c s @ [(c, ValueChanged, Live c)]))"
  have unfoldF: "fireChildrenNotifications_fuel (Suc n) this s =
     andThen (forEach F L s)
       (\<lambda>_ s'.
          let s'' = (if parent (heap s' this) = None \<and> length (changedNodes (heap s' this)) > 0
                     then fireSelfNotifications this s' else s')
          in Ok () (modify this (\<lambda>me. me\<lparr>changedNodes := []\<rparr>) s''))"
    by (simp add: F_def L_def)
  have unfoldE: "flushEvents (Suc n) this s =
     concat (map E L) @ (if parent (heap s this) = None \<and> L \<noteq> []
        then [(this, ValueChanged, Live this)] else [])"
    by (simp add: E_def L_def)
  have thislo: "this < lo" using below[OF descends.self] .
  have freshE: "\<exists>k'. y = placeholder k'" if "e \<in> set L" "(a, t, Fresh y) \<in> set (E e)" for e a t y
  proof (rule flushEvents_fresh)
    show "(a, t, Fresh y) \<in> set (flushEvents (Suc n) this s)"
      unfolding unfoldE using that by auto
  qed
  have loop: "\<exists>sj new. forEach F es si = Ok () sj \<and> flushStep si sj \<and> heap sj this = heap si this
        \<and> (\<forall>b. b < nextAddr s \<longrightarrow> \<not> descends s this b \<longrightarrow> heap sj b = heap si b)
        \<and> emitted sj = emitted si @ new
        \<and> map (describe lo sj) new = map Some (concat (map E es))
        \<and> carriedBelow (nextAddr sj) new"
    if "set es \<subseteq> set L" "distinct (map fst es)" "flushStep s si" "heap si this = heap s this"
      "\<And>k t c b. (k, t) \<in> set es \<Longrightarrow> t \<noteq> Removed \<Longrightarrow> map_of (children (heap s this)) k = Some c
          \<Longrightarrow> descends s c b \<Longrightarrow> heap si b = heap s b"
    for es si
    using that
  proof (induction es arbitrary: si)
    case Nil
    show ?case
      by (rule exI[of _ si], rule exI[of _ "[]"]) (simp add: flushStep_refl carriedBelow_def)
  next
    case (Cons e es)
    obtain k t where e: "e = (k, t)" by (cases e)
    have kt: "(k, t) \<in> set (changedNodes (heap s this))"
      using Cons.prems(1) e by (auto simp: L_def)
    note st = Cons.prems(3) and me = Cons.prems(4)
    have wli: "wellLinked si" by (rule flushStep_wellLinked[OF wl st])
    have lli: "ledgersLive si" by (rule flushStep_ledgersLive[OF ll st])
    have ni: "nextAddr s \<le> nextAddr si" by (rule flushStepD(1)[OF st])
    have step: "\<exists>s1 new1. F (k, t) si = Ok () s1 \<and> flushStep si s1 \<and> heap s1 this = heap si this
        \<and> (\<forall>b. b < nextAddr s \<longrightarrow> \<not> descends s this b \<longrightarrow> heap s1 b = heap si b)
        \<and> emitted s1 = emitted si @ new1
        \<and> map (describe lo s1) new1 = map Some (E (k, t))
        \<and> carriedBelow (nextAddr s1) new1
        \<and> (\<forall>k' t' c' b. (k', t') \<in> set es \<longrightarrow> t' \<noteq> Removed
              \<longrightarrow> map_of (children (heap s this)) k' = Some c'
              \<longrightarrow> descends s c' b \<longrightarrow> heap s1 b = heap s b)"
    proof (cases "t = Removed")
      case True
      let ?s1 = "publish this (Next (NodeEvent ChildRemoved (nextAddr si))) (snd (newNode None k si))"
      let ?new = "[(this, Next (NodeEvent ChildRemoved (nextAddr si)))]"
      have f: "F (k, t) si = Ok () ?s1"
        using True by (simp add: F_def split_def)
      have fs: "flushStep si ?s1" by (rule flushStep_newNode)
      have old: "heap ?s1 b = heap si b" if "b < nextAddr s" for b
        using that ni by simp
      have tail: "heap ?s1 b = heap s b"
        if "(k', t') \<in> set es" "t' \<noteq> Removed" "map_of (children (heap s this)) k' = Some c'"
          "descends s c' b" for k' t' c' b
      proof -
        have "c' < nextAddr s"
          using wellLinkedD[OF wl thisn map_of_SomeD[OF that(3)]] by simp
        then have "b < nextAddr s" using descends_ge[OF that(4) wl] by simp
        then have "heap ?s1 b = heap si b" by (rule old)
        also have "\<dots> = heap s b" using Cons.prems(5)[of k' t' c' b] that by simp
        finally show ?thesis .
      qed
      have d: "map (describe lo ?s1) ?new = map Some (E (k, t))"
        using True lo ni by (simp add: E_def placeholder_def)
      show ?thesis
        apply (rule exI[of _ ?s1], rule exI[of _ ?new])
        using f fs old[OF thisn] old d tail
        by (simp add: carriedBelow_def)
    next
      case False
      define ty where "ty = (if t = Added then ChildAdded else ChildChanged)"
      from ledgersLiveD[OF ll thisn kt] False
      obtain c where c: "map_of (children (heap s this)) k = Some c" by auto
      note lc = wellLinkedD[OF wl thisn map_of_SomeD[OF c]]
      have cn: "c < nextAddr s" and tc: "this < c" using lc by simp_all
      let ?s0 = "publish this (Next (NodeEvent ty c)) si"
      have gd: "getDirectChild this k si = Some c"
        using c me by (simp add: getDirectChild_def)
      have sub_eq: "heap si b = heap s b" if "descends s c b" for b
        using Cons.prems(5)[of k t c b] that False c e by simp
      have desc0: "descends ?s0 c b = descends s c b" for b
      proof -
        have "descends ?s0 c b = descends si c b" by (rule descends_same_heap) simp
        also have "\<dots> = descends s c b" by (rule flushStep_descends[OF wl st cn])
        finally show ?thesis .
      qed
      have fs0: "flushStep si ?s0" by (rule flushStep_same_heap) simp_all
      have "\<exists>sC. fireChildrenNotifications_fuel n c ?s0 = Ok () sC \<and> flushed lo n c ?s0 sC
              \<and> changedNodes (heap sC c) = []"
      proof (rule Suc.IH)
        show "wellLinked ?s0" by (rule flushStep_wellLinked[OF wli fs0])
        show "ledgersLive ?s0" by (rule flushStep_ledgersLive[OF lli fs0])
        show "c < nextAddr ?s0" using cn ni by simp
        show "lo \<le> n + c" using fuel tc by simp
        show "lo \<le> nextAddr ?s0" using lo ni by simp
        show "b < lo" if "descends ?s0 c b" for b
        proof (rule below)
          from that have "descends s c b" by (simp add: desc0)
          then show "descends s this b" using map_of_SomeD[OF c] by (rule descends_child)
        qed
      qed
      then obtain sC where sC: "fireChildrenNotifications_fuel n c ?s0 = Ok () sC"
        and fl: "flushed lo n c ?s0 sC" by blast
      from fl have fsC: "flushStep ?s0 sC"
        and frameC: "\<And>b. b < nextAddr ?s0 \<Longrightarrow> \<not> descends ?s0 c b \<Longrightarrow> heap sC b = heap ?s0 b"
        by (simp_all add: flushed_def)
      from fl obtain newC where newC: "emitted sC = emitted ?s0 @ newC"
        "map (describe lo sC) newC = map Some (flushEvents n c ?s0)"
        "carriedBelow (nextAddr sC) newC"
        unfolding flushed_def by blast
      let ?s1 = "fireSelfNotifications c sC"
      let ?new = "(this, Next (NodeEvent ty c)) # newC @ [(c, Next (NodeEvent ValueChanged c))]"
      have f: "F (k, t) si = Ok () ?s1"
        using False gd sC by (cases t) (simp_all add: F_def ty_def)
      have fs1: "flushStep sC ?s1"
        by (rule flushStep_same_heap) (simp_all add: fireSelfNotifications_def)
      have fs: "flushStep si ?s1"
        by (rule flushStep_trans[OF flushStep_trans[OF fs0 fsC] fs1])
      have frame: "heap ?s1 b = heap si b" if "b < nextAddr s" "\<not> descends s c b" for b
      proof -
        have "heap sC b = heap ?s0 b"
          by (rule frameC) (use that ni in \<open>simp_all add: desc0\<close>)
        then show ?thesis by (simp add: fireSelfNotifications_def)
      qed
      have notthis: "\<not> descends s c this"
        using descends_ge[OF _ wl cn, of this] tc by auto
      have hthis: "heap ?s1 this = heap si this"
        by (rule frame[OF thisn notthis])
      have outside: "heap ?s1 b = heap si b" if "b < nextAddr s" "\<not> descends s this b" for b
      proof (rule frame[OF that(1)])
        show "\<not> descends s c b"
          using that(2) descends_child[OF _ map_of_SomeD[OF c]] by blast
      qed
      have evc: "flushEvents n c ?s0 = flushEvents n c s"
      proof (rule flushEvents_cong)
        fix b assume "descends s c b"
        then show "heap ?s0 b = heap s b" using sub_eq by simp
      qed
      have clo: "c < lo" by (rule below[OF descends.child[OF descends.self map_of_SomeD[OF c]]])
      have dC: "map (describe lo ?s1) newC = map Some (flushEvents n c s)"
      proof -
        have "map (describe lo ?s1) newC = map (describe lo sC) newC"
          by (rule map_cong[OF refl]) (rule describe_heap_cong, simp add: fireSelfNotifications_def)
        with newC(2) evc show ?thesis by simp
      qed
      have Ekt: "E (k, t) = (this, ty, Live c) # flushEvents n c s @ [(c, ValueChanged, Live c)]"
        using False c by (cases t) (simp_all add: E_def ty_def getDirectChild_def)
      have d: "map (describe lo ?s1) ?new = map Some (E (k, t))"
        using dC clo thislo by (simp add: Ekt)
      have em: "emitted ?s1 = emitted si @ ?new"
        using newC(1) by (simp add: fireSelfNotifications_def)
      have nC: "nextAddr s \<le> nextAddr sC" using flushStepD(1)[OF fsC] ni by simp
      have cb: "carriedBelow (nextAddr ?s1) ?new"
        using newC(3) cn nC by (auto simp: carriedBelow_def fireSelfNotifications_def)
      have tail: "heap ?s1 b = heap s b"
        if that: "(k', t') \<in> set es" "t' \<noteq> Removed" "map_of (children (heap s this)) k' = Some c'"
          "descends s c' b" for k' t' c' b
      proof -
        have kk: "k' \<noteq> k" using Cons.prems(2) that(1) e by force
        note lc' = wellLinkedD[OF wl thisn map_of_SomeD[OF that(3)]]
        have "c' \<noteq> c" using lc lc' kk by auto
        then have nd: "\<not> descends s c b"
          using siblings_disjoint[OF wl thisn map_of_SomeD[OF c] map_of_SomeD[OF that(3)] _ _ that(4)]
          by blast
        have "c' < nextAddr s" using lc' by simp
        then have "b < nextAddr s" using descends_ge[OF that(4) wl] by simp
        from frame[OF this nd] have "heap ?s1 b = heap si b" .
        also have "\<dots> = heap s b" using Cons.prems(5)[of k' t' c' b] that by simp
        finally show ?thesis .
      qed
      show ?thesis
        apply (rule exI[of _ ?s1], rule exI[of _ ?new])
        using f fs hthis outside em d cb tail by blast
    qed
    then obtain s1 new1 where s1: "F (k, t) si = Ok () s1" "flushStep si s1"
      "heap s1 this = heap si this"
      "\<And>b. b < nextAddr s \<Longrightarrow> \<not> descends s this b \<Longrightarrow> heap s1 b = heap si b"
      "emitted s1 = emitted si @ new1"
      "map (describe lo s1) new1 = map Some (E (k, t))"
      "carriedBelow (nextAddr s1) new1"
      "\<And>k' t' c' b. (k', t') \<in> set es \<Longrightarrow> t' \<noteq> Removed
          \<Longrightarrow> map_of (children (heap s this)) k' = Some c' \<Longrightarrow> descends s c' b \<Longrightarrow> heap s1 b = heap s b"
      by blast
    have "\<exists>sj new. forEach F es s1 = Ok () sj \<and> flushStep s1 sj \<and> heap sj this = heap s1 this
        \<and> (\<forall>b. b < nextAddr s \<longrightarrow> \<not> descends s this b \<longrightarrow> heap sj b = heap s1 b)
        \<and> emitted sj = emitted s1 @ new
        \<and> map (describe lo sj) new = map Some (concat (map E es))
        \<and> carriedBelow (nextAddr sj) new"
    proof (rule Cons.IH)
      show "set es \<subseteq> set L" using Cons.prems(1) by simp
      show "distinct (map fst es)" using Cons.prems(2) by simp
      show "flushStep s s1" by (rule flushStep_trans[OF st s1(2)])
      show "heap s1 this = heap s this" using s1(3) me by simp
      show "heap s1 b = heap s b"
        if "(k', t') \<in> set es" "t' \<noteq> Removed" "map_of (children (heap s this)) k' = Some c'"
          "descends s c' b" for k' t' c' b
        using that by (rule s1(8))
    qed
    then obtain sj new2 where sj: "forEach F es s1 = Ok () sj" "flushStep s1 sj"
      "heap sj this = heap s1 this"
      "\<And>b. b < nextAddr s \<Longrightarrow> \<not> descends s this b \<Longrightarrow> heap sj b = heap s1 b"
      "emitted sj = emitted s1 @ new2"
      "map (describe lo sj) new2 = map Some (concat (map E es))"
      "carriedBelow (nextAddr sj) new2"
      by blast
    have d1: "map (describe lo sj) new1 = map Some (E (k, t))"
    proof (rule map_describe_stable[OF sj(2) _ s1(6) s1(7)])
      fix a t' y assume "(a, t', Fresh y) \<in> set (E (k, t))"
      then show "\<exists>k'. y = placeholder k'"
        using freshE[of "(k, t)"] kt by (auto simp: L_def)
    qed
    have cb: "carriedBelow (nextAddr sj) (new1 @ new2)"
      using s1(7) sj(7) flushStepD(1)[OF sj(2)] by (fastforce simp: carriedBelow_def)
    show ?case
      apply (rule exI[of _ sj], rule exI[of _ "new1 @ new2"])
      using s1(1) sj(1) flushStep_trans[OF s1(2) sj(2)] s1(3) sj(3) s1(4) sj(4) s1(5) sj(5)
        d1 sj(6) cb e
      by simp
  qed
  have dist: "distinct (map fst L)"
  proof (cases L)
    case Nil
    then show ?thesis by simp
  next
    case (Cons x xs)
    obtain k t where "x = (k, t)" by (cases x)
    with Cons have "(k, t) \<in> set (changedNodes (heap s this))" by (simp add: L_def)
    from ledgersLiveD[OF ll thisn this] show ?thesis by (simp add: L_def)
  qed
  have "\<exists>sj new. forEach F L s = Ok () sj \<and> flushStep s sj \<and> heap sj this = heap s this
        \<and> (\<forall>b. b < nextAddr s \<longrightarrow> \<not> descends s this b \<longrightarrow> heap sj b = heap s b)
        \<and> emitted sj = emitted s @ new
        \<and> map (describe lo sj) new = map Some (concat (map E L))
        \<and> carriedBelow (nextAddr sj) new"
    by (rule loop[OF subset_refl dist flushStep_refl refl refl])
  then obtain sj new where sj: "forEach F L s = Ok () sj" "flushStep s sj"
      "heap sj this = heap s this"
      "\<And>b. b < nextAddr s \<Longrightarrow> \<not> descends s this b \<Longrightarrow> heap sj b = heap s b"
      "emitted sj = emitted s @ new"
      "map (describe lo sj) new = map Some (concat (map E L))"
      "carriedBelow (nextAddr sj) new"
    by blast
  define rootEv where "rootEv = (if parent (heap s this) = None \<and> L \<noteq> []
      then [(this, Next (NodeEvent ValueChanged this))] else [])"
  define s'' where "s'' = (if parent (heap s this) = None \<and> L \<noteq> []
      then fireSelfNotifications this sj else sj)"
  define s' where "s' = modify this (\<lambda>me. me\<lparr>changedNodes := []\<rparr>) s''"
  have nj: "nextAddr s \<le> nextAddr sj" by (rule flushStepD(1)[OF sj(2)])
  have res: "fireChildrenNotifications_fuel (Suc n) this s = Ok () s'"
    unfolding unfoldF using sj(1) sj(3)
    by (simp add: s'_def s''_def L_def Let_def)
  have h'': "heap s'' = heap sj" "nextAddr s'' = nextAddr sj" "emitted s'' = emitted sj @ rootEv"
    by (simp_all add: s''_def rootEv_def fireSelfNotifications_def)
  have fsj: "flushStep sj s'"
  proof -
    have "flushStep sj s''" by (rule flushStep_same_heap) (simp_all add: h'')
    moreover have "flushStep s'' s'"
      unfolding s'_def by (rule flushStep_clear) (use thisn nj h'' in simp)
    ultimately show ?thesis by (rule flushStep_trans)
  qed
  have fs': "flushStep s s'" by (rule flushStep_trans[OF sj(2) fsj])
  have frame': "heap s' b = heap s b" if "b < nextAddr s" "\<not> descends s this b" for b
  proof -
    have "b \<noteq> this" using that(2) descends.self by blast
    then have "heap s' b = heap sj b" by (simp add: s'_def h'')
    with sj(4)[OF that] show ?thesis by simp
  qed
  have d': "map (describe lo s') new = map Some (concat (map E L))"
  proof (rule map_describe_stable[OF fsj _ sj(6) sj(7)])
    fix a t y assume "(a, t, Fresh y) \<in> set (concat (map E L))"
    then show "\<exists>k'. y = placeholder k'" using freshE by auto
  qed
  have dr: "map (describe lo s') rootEv = map Some (if parent (heap s this) = None \<and> L \<noteq> []
        then [(this, ValueChanged, Live this)] else [])"
    using thislo by (simp add: rootEv_def)
  have em': "emitted s' = emitted s @ (new @ rootEv)"
    using sj(5) by (simp add: s'_def h'')
  have cb': "carriedBelow (nextAddr s') (new @ rootEv)"
    using sj(7) thisn nj by (auto simp: carriedBelow_def rootEv_def s'_def h'')
  have "flushed lo (Suc n) this s s'"
    unfolding flushed_def unfoldE
    using fs' frame' em' d' dr cb' by (intro conjI allI impI exI[of _ "new @ rootEv"]) simp_all
  moreover have "changedNodes (heap s' this) = []" by (simp add: s'_def)
  ultimately show ?case using res by blast
qed


lemma fire_again:
  assumes "changedNodes (heap s this) = []" and "0 < nextAddr s"
  shows "fireChildrenNotifications this s = Ok () s"
proof -
  obtain n where n: "nextAddr s = Suc n"
    using assms(2) by (cases "nextAddr s") auto
  have "(heap s this)\<lparr>changedNodes := []\<rparr> = heap s this"
    using assms(1) by (cases "heap s this") simp
  then have "modify this (\<lambda>me. me\<lparr>changedNodes := []\<rparr>) s = s"
    by (simp add: modify_def)
  then show ?thesis
    using assms(1) n by (simp add: fireChildrenNotifications_def)
qed

text \<open>
  C6. In a store whose nodes are linked as a tree and whose ledgers name live children,
  the flush of a node returns, and what it publishes is, in order, what the ledgers say:
  for every ledger entry in iteration order, a Removed entry gives one ChildRemoved
  carrying a node made for it, without parent, value or children, with the entry's key;
  any other entry gives ChildAdded or ChildChanged carrying the live child, then the
  flush of the child's own ledger, then exactly one ValueChanged of the child; and a
  node without parent (the root) then publishes its own ValueChanged if and only if its
  ledger was not empty. Afterwards the ledger is empty, and a second flush returns
  without publishing anything or changing the store.
\<close>

theorem flush_publishes_ledger:
  assumes wl: "wellLinked s" and ll: "ledgersLive s" and alloc: "node < nextAddr s"
  shows "\<exists>s' new. fireChildrenNotifications node s = Ok () s'
       \<and> emitted s' = emitted s @ new
       \<and> map (describe (nextAddr s) s') new = map Some (flushEvents (nextAddr s) node s)
       \<and> changedNodes (heap s' node) = []
       \<and> fireChildrenNotifications node s' = Ok () s'"
proof -
  have "\<exists>s'. fireChildrenNotifications_fuel (nextAddr s) node s = Ok () s'
      \<and> flushed (nextAddr s) (nextAddr s) node s s' \<and> changedNodes (heap s' node) = []"
  proof (rule fireChildrenNotifications_fuel_flushed[OF wl ll alloc])
    show "nextAddr s \<le> nextAddr s + node" by simp
    show "nextAddr s \<le> nextAddr s" by simp
    show "b < nextAddr s" if "descends s node b" for b
      using descends_ge[OF that wl alloc] by simp
  qed
  then obtain s' where s': "fireChildrenNotifications node s = Ok () s'"
    "flushed (nextAddr s) (nextAddr s) node s s'" "changedNodes (heap s' node) = []"
    by (auto simp: fireChildrenNotifications_def)
  from s'(2) obtain new where new: "emitted s' = emitted s @ new"
    "map (describe (nextAddr s) s') new = map Some (flushEvents (nextAddr s) node s)"
    and st: "flushStep s s'"
    unfolding flushed_def by blast
  have pos: "0 < nextAddr s'" using flushStepD(1)[OF st] alloc by simp
  from fire_again[OF s'(3) pos] s'(1) s'(3) new show ?thesis by blast
qed

lemma flushScenario_heap:
  "heap flushScenario a =
     (if a = 0 then \<lparr>parent = None, key = [], val = None, children = [(''a'', 1)],
                      changedNodes = [(''a'', Changed)]\<rparr>
      else if a = 1 then \<lparr>parent = Some 0, key = ''a'', val = None, children = [(''y'', 3)],
                      changedNodes = [(''x'', Removed), (''y'', Added)]\<rparr>
      else if a = 2 then \<lparr>parent = Some 1, key = ''x'', val = Some (PNumber 1), children = [],
                      changedNodes = []\<rparr>
      else if a = 3 then \<lparr>parent = Some 1, key = ''y'', val = Some (PNumber 2), children = [],
                      changedNodes = []\<rparr>
      else blankNode)"
  "nextAddr flushScenario = 4"
  by (simp_all add: flushScenario_def finalState_def eval_defs numeral_2_eq_2 numeral_3_eq_3 cong: eval_cong)

lemma flushScenario_wf: "wellLinked flushScenario" "ledgersLive flushScenario"
  by (auto simp: wellLinked_def ledgersLive_def flushScenario_heap blankNode_def split: if_splits)


lemma flushScenario_events:
  "flushEvents 4 0 flushScenario =
     [(0, ChildChanged, Live 1), (1, ChildRemoved, Fresh (placeholder ''x'')),
      (1, ChildAdded, Live 3), (3, ValueChanged, Live 3), (1, ValueChanged, Live 1),
      (0, ValueChanged, Live 0)]"
  by (simp add: flushScenario_heap eval_nat_numeral getDirectChild_def)

theorem flush_publishes_ledger_witness:
  "wellLinked flushScenario \<and> ledgersLive flushScenario \<and> 0 < nextAddr flushScenario \<and>
   (\<exists>s' new. fireChildrenNotifications 0 flushScenario = Ok () s'
      \<and> emitted s' = emitted flushScenario @ new
      \<and> map (describe 4 s') new = map Some
          [(0, ChildChanged, Live 1), (1, ChildRemoved, Fresh (placeholder ''x'')),
           (1, ChildAdded, Live 3), (3, ValueChanged, Live 3), (1, ValueChanged, Live 1),
           (0, ValueChanged, Live 0)]
      \<and> changedNodes (heap s' 0) = []
      \<and> fireChildrenNotifications 0 s' = Ok () s')"
proof -
  have pos: "0 < nextAddr flushScenario" by (simp add: flushScenario_heap)
  from flush_publishes_ledger[OF flushScenario_wf pos] flushScenario_wf pos
  show ?thesis by (simp add: flushScenario_events flushScenario_heap(2))
qed

end
